theory Spec2Isabelle
  imports Main "HOL-Library.Word"
begin

section \<open>Keys, values and faults\<close>

text \<open>
  A key is the byte content of a \<^verbatim>\<open>CDataStream\<close>; \<^verbatim>\<open>ssKey.size()\<close> is its length.
  The machine sizes of \<^verbatim>\<open>src/dbwrapper.h\<close> are \<^verbatim>\<open>size_t\<close> and \<^verbatim>\<open>ssize_t\<close>
  (64 bits, the second read as two's complement) and \<^verbatim>\<open>unsigned int\<close> (32 bits).
\<close>

type_synonym bytes = "8 word list"
type_synonym size_t = "64 word"

text \<open>
  What the C++ code can do instead of returning: throw the \<^verbatim>\<open>std::runtime_error\<close> of
  \<^verbatim>\<open>CDBTransaction::Read\<close>, fail an \<^verbatim>\<open>assert\<close>, dereference an iterator that is at its
  end (undefined in C++), or let an engine failure of the absent \<^verbatim>\<open>ReadImpl\<close> escape.
\<close>

datatype error = TypeMismatch | AssertionFailure | InvalidIterator | EngineFailure

text \<open>
  \<^verbatim>\<open>DataStreamCmp::less\<close> is \<^verbatim>\<open>std::lexicographical_compare\<close> over the bytes read as
  \<^verbatim>\<open>uint8_t\<close>: the first differing byte decides, and a proper prefix is smaller.
\<close>

fun DataStreamCmp_less :: "bytes \<Rightarrow> bytes \<Rightarrow> bool" where
  "DataStreamCmp_less [] [] = False"
| "DataStreamCmp_less [] (b # bs) = True"
| "DataStreamCmp_less (a # as) [] = False"
| "DataStreamCmp_less (a # as) (b # bs) =
     (if a < b then True else if b < a then False else DataStreamCmp_less as bs)"

section \<open>The ordered containers of the overlay\<close>

text \<open>
  \<^verbatim>\<open>ValueHolderImpl<V>\<close> keeps a value of the C++ type \<^verbatim>\<open>V\<close> behind the type-erased
  \<^verbatim>\<open>ValueHolder\<close>. The model keeps the type as a tag beside the value:
  \<^verbatim>\<open>dynamic_cast<ValueHolderImpl<V>*>\<close> succeeds exactly when the tag is \<^verbatim>\<open>V\<close>.
\<close>

datatype ('ty, 'v) ValueHolder =
  ValueHolderImpl (holder_type: 'ty) (holder_value: 'v) (holder_memoryUsage: size_t)

text \<open>
  \<^verbatim>\<open>WritesMap\<close> is a \<^verbatim>\<open>std::map\<close> and \<^verbatim>\<open>DeletesSet\<close> a \<^verbatim>\<open>std::set\<close>, both ordered by
  \<^verbatim>\<open>DataStreamCmp\<close>: the model is the list of entries in iteration order. The functions
  below are the container operations the code calls.
\<close>

type_synonym ('ty, 'v) WritesMap = "(bytes \<times> ('ty, 'v) ValueHolder) list"
type_synonym DeletesSet = "bytes list"

text \<open>\<^verbatim>\<open>writes.find(k)\<close>: the holder of the entry, or \<open>None\<close> for \<^verbatim>\<open>writes.end()\<close>.\<close>

fun map_find :: "bytes \<Rightarrow> ('ty, 'v) WritesMap \<Rightarrow> ('ty, 'v) ValueHolder option" where
  "map_find k [] = None"
| "map_find k ((k', h) # ws) = (if k' = k then Some h else map_find k ws)"

text \<open>\<^verbatim>\<open>writes.count(k)\<close> and \<^verbatim>\<open>deletes.count(k)\<close>, read as a truth value.\<close>

definition map_count :: "bytes \<Rightarrow> ('ty, 'v) WritesMap \<Rightarrow> bool" where
  "map_count k ws = (map_find k ws \<noteq> None)"

definition set_count :: "bytes \<Rightarrow> DeletesSet \<Rightarrow> bool" where
  "set_count k ds = (k \<in> set ds)"

text \<open>
  \<^verbatim>\<open>writes.emplace(k, nullptr).first->second = h\<close>: the entry for \<open>k\<close> is created at its
  place in the order when there is none, and holds \<open>h\<close> afterwards.
\<close>

fun map_put :: "bytes \<Rightarrow> ('ty, 'v) ValueHolder \<Rightarrow> ('ty, 'v) WritesMap \<Rightarrow> ('ty, 'v) WritesMap" where
  "map_put k h [] = [(k, h)]"
| "map_put k h ((k', h') # ws) =
     (if DataStreamCmp_less k k' then (k, h) # (k', h') # ws
      else if DataStreamCmp_less k' k then (k', h') # map_put k h ws
      else (k, h) # ws)"

text \<open>\<^verbatim>\<open>writes.erase(it)\<close> for the iterator that \<^verbatim>\<open>writes.find(k)\<close> returned.\<close>

fun map_erase :: "bytes \<Rightarrow> ('ty, 'v) WritesMap \<Rightarrow> ('ty, 'v) WritesMap" where
  "map_erase k [] = []"
| "map_erase k ((k', h) # ws) = (if k' = k then ws else (k', h) # map_erase k ws)"

text \<open>\<^verbatim>\<open>deletes.emplace(k)\<close>: the set afterwards; \<^verbatim>\<open>.second\<close> is \<open>\<not> set_count k ds\<close>.\<close>

fun set_emplace :: "bytes \<Rightarrow> DeletesSet \<Rightarrow> DeletesSet" where
  "set_emplace k [] = [k]"
| "set_emplace k (d # ds) =
     (if DataStreamCmp_less k d then k # d # ds
      else if DataStreamCmp_less d k then d # set_emplace k ds
      else d # ds)"

text \<open>\<^verbatim>\<open>deletes.erase(k)\<close>: the set afterwards; the returned count is nonzero iff \<open>set_count k ds\<close>.\<close>

fun set_erase :: "bytes \<Rightarrow> DeletesSet \<Rightarrow> DeletesSet" where
  "set_erase k [] = []"
| "set_erase k (d # ds) = (if d = k then ds else d # set_erase k ds)"

section \<open>CDBTransaction: the overlay\<close>

text \<open>
  The members of \<^verbatim>\<open>CDBTransaction\<close>. The references \<^verbatim>\<open>parent\<close> and \<^verbatim>\<open>commitTarget\<close>
  are template parameters of the class; the operations that use them take the parent's
  or the target's operation as an argument.
\<close>

record ('ty, 'v) CDBTransaction =
  writes :: "('ty, 'v) WritesMap"
  deletes :: DeletesSet
  memoryUsage :: size_t

text \<open>The state after the constructor: both containers empty, \<^verbatim>\<open>memoryUsage{0}\<close>.\<close>

definition CDBTransaction_new :: "('ty, 'v) CDBTransaction" where
  "CDBTransaction_new = \<lparr>writes = [], deletes = [], memoryUsage = 0\<rparr>"

text \<open>
  \<^verbatim>\<open>Write(const CDataStream& ssKey, const V& v)\<close>. \<open>ssz\<close> is \<^verbatim>\<open>::GetSerializeSize\<close>
  (of \<^verbatim>\<open>serialize.h\<close>) at the type \<open>V\<close>. The arithmetic on \<^verbatim>\<open>memoryUsage\<close> is done in
  \<^verbatim>\<open>size_t\<close> and stored back in the \<^verbatim>\<open>ssize_t\<close>, so it wraps at 64 bits.
\<close>

definition Write ::
  "('ty \<Rightarrow> 'v \<Rightarrow> size_t) \<Rightarrow> bytes \<Rightarrow> 'ty \<Rightarrow> 'v \<Rightarrow> ('ty, 'v) CDBTransaction \<Rightarrow> ('ty, 'v) CDBTransaction" where
  "Write ssz ssKey V v t =
     (let valueMemoryUsage = ssz V v;
          mu1 = (if set_count ssKey (deletes t)
                 then memoryUsage t - of_nat (length ssKey) else memoryUsage t);
          mu2 = (case map_find ssKey (writes t) of
                   Some old \<Rightarrow> mu1 - (of_nat (length ssKey) + holder_memoryUsage old)
                 | None \<Rightarrow> mu1)
      in \<lparr>writes = map_put ssKey (ValueHolderImpl V v valueMemoryUsage) (writes t),
          deletes = set_erase ssKey (deletes t),
          memoryUsage = mu2 + (of_nat (length ssKey) + valueMemoryUsage)\<rparr>)"

text \<open>
  \<^verbatim>\<open>Read(const CDataStream& ssKey, V& value)\<close>: \<open>Inr None\<close> is \<^verbatim>\<open>return false\<close>,
  \<open>Inr (Some x)\<close> is \<^verbatim>\<open>return true\<close> with \<open>x\<close> assigned to \<^verbatim>\<open>value\<close>, and \<open>Inl TypeMismatch\<close> is
  the \<^verbatim>\<open>throw std::runtime_error\<close>. \<open>parent_Read\<close> is \<^verbatim>\<open>parent.Read\<close>.
\<close>

definition Read ::
  "(bytes \<Rightarrow> 'ty \<Rightarrow> error + 'v option) \<Rightarrow> ('ty, 'v) CDBTransaction \<Rightarrow> bytes \<Rightarrow> 'ty \<Rightarrow> error + 'v option" where
  "Read parent_Read t ssKey V =
     (if set_count ssKey (deletes t) then Inr None
      else case map_find ssKey (writes t) of
             Some h \<Rightarrow> (if holder_type h \<noteq> V then Inl TypeMismatch else Inr (Some (holder_value h)))
           | None \<Rightarrow> parent_Read ssKey V)"

text \<open>\<^verbatim>\<open>Exists(const CDataStream& ssKey)\<close>; \<open>parent_Exists\<close> is \<^verbatim>\<open>parent.Exists\<close>.\<close>

definition Exists :: "(bytes \<Rightarrow> bool) \<Rightarrow> ('ty, 'v) CDBTransaction \<Rightarrow> bytes \<Rightarrow> bool" where
  "Exists parent_Exists t ssKey =
     (if set_count ssKey (deletes t) then False
      else if map_count ssKey (writes t) then True
      else parent_Exists ssKey)"

text \<open>\<^verbatim>\<open>Erase(const CDataStream& ssKey)\<close>.\<close>

definition Erase :: "bytes \<Rightarrow> ('ty, 'v) CDBTransaction \<Rightarrow> ('ty, 'v) CDBTransaction" where
  "Erase ssKey t =
     (let (ws, mu1) = (case map_find ssKey (writes t) of
                         Some h \<Rightarrow> (map_erase ssKey (writes t),
                                    memoryUsage t - (of_nat (length ssKey) + holder_memoryUsage h))
                       | None \<Rightarrow> (writes t, memoryUsage t))
      in \<lparr>writes = ws,
          deletes = set_emplace ssKey (deletes t),
          memoryUsage = (if \<not> set_count ssKey (deletes t) then mu1 + of_nat (length ssKey) else mu1)\<rparr>)"

text \<open>\<^verbatim>\<open>Clear()\<close>.\<close>

definition Clear :: "('ty, 'v) CDBTransaction \<Rightarrow> ('ty, 'v) CDBTransaction" where
  "Clear t = \<lparr>writes = [], deletes = [], memoryUsage = 0\<rparr>"

text \<open>
  \<^verbatim>\<open>Commit()\<close>, on the overlay and its commit target \<open>c\<close>. \<open>target_Erase\<close> and
  \<open>target_Write\<close> are \<^verbatim>\<open>commitTarget.Erase\<close> and \<^verbatim>\<open>commitTarget.Write\<close>; the second is
  reached through \<^verbatim>\<open>ValueHolderImpl<V>::Write\<close>, which passes the held value at its own
  type. The two loops run over the containers in their order, then \<^verbatim>\<open>Clear()\<close>.
\<close>

definition Commit ::
  "(bytes \<Rightarrow> 'c \<Rightarrow> 'c) \<Rightarrow> (bytes \<Rightarrow> 'ty \<Rightarrow> 'v \<Rightarrow> 'c \<Rightarrow> 'c) \<Rightarrow>
   ('ty, 'v) CDBTransaction \<Rightarrow> 'c \<Rightarrow> ('ty, 'v) CDBTransaction \<times> 'c" where
  "Commit target_Erase target_Write t c =
     (let c1 = foldl (\<lambda>c k. target_Erase k c) c (deletes t);
          c2 = foldl (\<lambda>c (k, h). target_Write k (holder_type h) (holder_value h) c) c1 (writes t)
      in (Clear t, c2))"

text \<open>\<^verbatim>\<open>IsClean()\<close>.\<close>

definition IsClean :: "('ty, 'v) CDBTransaction \<Rightarrow> bool" where
  "IsClean t = (writes t = [] \<and> deletes t = [])"

text \<open>
  \<^verbatim>\<open>GetMemoryUsage()\<close>. The function-local \<^verbatim>\<open>static volatile bool didPrint\<close> outlives
  the call (there is one flag for each instantiation of the class template, shared by
  all its overlays): the function takes the flag and the log, and returns them beside
  the size. \<open>LogPrintf\<close> appends one line; the line's text is not modelled beyond its
  counter.
\<close>

datatype log_line = NegativeMemoryUsage int

definition GetMemoryUsage ::
  "('ty, 'v) CDBTransaction \<Rightarrow> bool \<times> log_line list \<Rightarrow> size_t \<times> bool \<times> log_line list" where
  "GetMemoryUsage t p =
     (case p of (didPrint, lg) \<Rightarrow>
        if sint (memoryUsage t) < 0
        then (if \<not> didPrint
              then (0, True, lg @ [NegativeMemoryUsage (sint (memoryUsage t))])
              else (0, didPrint, lg))
        else (memoryUsage t, didPrint, lg))"

section \<open>CDBWrapper and CDBIterator: the typed reads of the store\<close>

text \<open>
  \<^verbatim>\<open>CDBWrapper::Read(const K& key, V& value)\<close>. The bodies of \<^verbatim>\<open>ReadImpl\<close>, of the
  stream operators and of \<^verbatim>\<open>CDataStream::Xor\<close> are not in this header, so they are
  arguments: \<open>Serialize\<close> is \<^verbatim>\<open>ssKey << key\<close>; \<open>ReadImpl\<close> gives the stored bytes,
  \<open>None\<close> for \<^verbatim>\<open>std::nullopt\<close>, or lets an engine failure escape; \<open>Xor\<close> takes the
  obfuscation key and the bytes; \<open>Unserialize V\<close> is \<^verbatim>\<open>ssValue >> value\<close> at the type
  \<open>V\<close>, \<open>None\<close> when it throws a \<^verbatim>\<open>std::exception\<close>. The result \<open>Inr None\<close> is
  \<^verbatim>\<open>return false\<close>, and \<open>Inr (Some x)\<close> is \<^verbatim>\<open>return true\<close> with \<open>x\<close> in \<^verbatim>\<open>value\<close>.
\<close>

definition CDBWrapper_Read ::
  "('k \<Rightarrow> bytes) \<Rightarrow> (bytes \<Rightarrow> error + bytes option) \<Rightarrow> (bytes \<Rightarrow> bytes \<Rightarrow> bytes) \<Rightarrow>
   ('ty \<Rightarrow> bytes \<Rightarrow> 'v option) \<Rightarrow> bytes \<Rightarrow> 'k \<Rightarrow> 'ty \<Rightarrow> error + 'v option" where
  "CDBWrapper_Read Serialize ReadImpl Xor Unserialize obfuscate_key key V =
     (let ssKey = Serialize key in
      case ReadImpl ssKey of
        Inl e \<Rightarrow> Inl e
      | Inr None \<Rightarrow> Inr None
      | Inr (Some strValue) \<Rightarrow>
          (case Unserialize V (Xor obfuscate_key strValue) of
             None \<Rightarrow> Inr None
           | Some x \<Rightarrow> Inr (Some x)))"

text \<open>
  \<^verbatim>\<open>CDBIterator::GetValue(V& value)\<close>; \<open>valueImpl\<close> is what \<^verbatim>\<open>GetValueImpl()\<close> returns
  at the iterator's position. \<open>None\<close> is \<^verbatim>\<open>return false\<close>.
\<close>

definition CDBIterator_GetValue ::
  "(bytes \<Rightarrow> bytes \<Rightarrow> bytes) \<Rightarrow> ('ty \<Rightarrow> bytes \<Rightarrow> 'v option) \<Rightarrow> bytes \<Rightarrow> bytes \<Rightarrow> 'ty \<Rightarrow> 'v option" where
  "CDBIterator_GetValue Xor Unserialize obfuscate_key valueImpl V =
     (case Unserialize V (Xor obfuscate_key valueImpl) of
        None \<Rightarrow> None
      | Some x \<Rightarrow> Some x)"

section \<open>CDBTransactionIterator: the merge iterator\<close>

text \<open>
  The members of \<^verbatim>\<open>CDBTransactionIterator\<close>. \<open>transactionIt\<close> is a position in
  \<^verbatim>\<open>transaction.writes\<close>: the model keeps the entries from that position on, so
  \<^verbatim>\<open>writes.end()\<close> is \<open>[]\<close> and \<^verbatim>\<open>++transactionIt\<close> is \<open>tl\<close>. \<open>parentIt\<close> is the parent's
  iterator: the model keeps the keys it has still to deliver, in the order it delivers
  them, so \<^verbatim>\<open>parentIt->Valid()\<close> is \<open>parentIt \<noteq> []\<close>, \<^verbatim>\<open>parentIt->GetKey()\<close> is the head
  and \<^verbatim>\<open>parentIt->Next()\<close> is \<open>tl\<close>. The overlay is not changed while the iterator is used.
\<close>

record ('ty, 'v) CDBTransactionIterator =
  transactionIt :: "('ty, 'v) WritesMap"
  parentIt :: "bytes list"
  parentKey :: bytes
  curIsParent :: bool

text \<open>
  The constructor: \<^verbatim>\<open>transactionIt = transaction.writes.end()\<close>, a fresh parent iterator
  (not positioned), an empty \<^verbatim>\<open>parentKey\<close>, \<^verbatim>\<open>curIsParent{false}\<close>.
\<close>

definition CDBTransactionIterator_new :: "('ty, 'v) CDBTransactionIterator" where
  "CDBTransactionIterator_new =
     \<lparr>transactionIt = [], parentIt = [], parentKey = [], curIsParent = False\<rparr>"

text \<open>
  The loop of \<^verbatim>\<open>SkipDeletedAndOverwritten()\<close> on the parent iterator and \<^verbatim>\<open>parentKey\<close>:
  every key the loop looks at is stored in \<^verbatim>\<open>parentKey\<close>, also a skipped one.
\<close>

fun SkipDeletedAndOverwritten_loop ::
  "('ty, 'v) CDBTransaction \<Rightarrow> bytes list \<Rightarrow> bytes \<Rightarrow> bytes list \<times> bytes" where
  "SkipDeletedAndOverwritten_loop t [] pk = ([], pk)"
| "SkipDeletedAndOverwritten_loop t (k # ks) pk =
     (if \<not> set_count k (deletes t) \<and> \<not> map_count k (writes t) then (k # ks, k)
      else SkipDeletedAndOverwritten_loop t ks k)"

definition SkipDeletedAndOverwritten ::
  "('ty, 'v) CDBTransaction \<Rightarrow> ('ty, 'v) CDBTransactionIterator \<Rightarrow> ('ty, 'v) CDBTransactionIterator" where
  "SkipDeletedAndOverwritten t it =
     (case SkipDeletedAndOverwritten_loop t (parentIt it) (parentKey it) of
        (p, pk) \<Rightarrow> it\<lparr>parentIt := p, parentKey := pk\<rparr>)"

text \<open>\<^verbatim>\<open>DecideCur()\<close>, branch for branch; with both legs at their end nothing is assigned.\<close>

definition DecideCur :: "('ty, 'v) CDBTransactionIterator \<Rightarrow> ('ty, 'v) CDBTransactionIterator" where
  "DecideCur it =
     (if transactionIt it \<noteq> [] \<and> \<not> parentIt it \<noteq> [] then it\<lparr>curIsParent := False\<rparr>
      else if transactionIt it = [] \<and> parentIt it \<noteq> [] then it\<lparr>curIsParent := True\<rparr>
      else if transactionIt it \<noteq> [] \<and> parentIt it \<noteq> [] then
        (if DataStreamCmp_less (fst (hd (transactionIt it))) (parentKey it)
         then it\<lparr>curIsParent := False\<rparr>
         else it\<lparr>curIsParent := True\<rparr>)
      else it)"

text \<open>
  \<^verbatim>\<open>SeekToFirst()\<close>; \<open>parent_keys\<close> is what the parent's iterator delivers after its own
  \<^verbatim>\<open>SeekToFirst()\<close>: all keys of the parent, in the parent's order.
\<close>

definition SeekToFirst ::
  "('ty, 'v) CDBTransaction \<Rightarrow> bytes list \<Rightarrow> ('ty, 'v) CDBTransactionIterator \<Rightarrow> ('ty, 'v) CDBTransactionIterator" where
  "SeekToFirst t parent_keys it =
     DecideCur (SkipDeletedAndOverwritten t (it\<lparr>transactionIt := writes t, parentIt := parent_keys\<rparr>))"

text \<open>\<^verbatim>\<open>Valid()\<close>.\<close>

definition Valid :: "('ty, 'v) CDBTransactionIterator \<Rightarrow> bool" where
  "Valid it = (transactionIt it \<noteq> [] \<or> parentIt it \<noteq> [])"

text \<open>\<^verbatim>\<open>Next()\<close>; a failed \<^verbatim>\<open>assert\<close> is \<open>Inl AssertionFailure\<close>.\<close>

definition Next ::
  "('ty, 'v) CDBTransaction \<Rightarrow> ('ty, 'v) CDBTransactionIterator \<Rightarrow> error + ('ty, 'v) CDBTransactionIterator" where
  "Next t it =
     (if transactionIt it = [] \<and> \<not> parentIt it \<noteq> [] then Inr it
      else if curIsParent it then
        (if \<not> parentIt it \<noteq> [] then Inl AssertionFailure
         else Inr (DecideCur (SkipDeletedAndOverwritten t (it\<lparr>parentIt := tl (parentIt it)\<rparr>))))
      else
        (if \<not> transactionIt it \<noteq> [] then Inl AssertionFailure
         else Inr (DecideCur (it\<lparr>transactionIt := tl (transactionIt it)\<rparr>))))"

text \<open>
  The typed \<^verbatim>\<open>GetKey(K& key)\<close>; \<open>Unserialize_key\<close> is \<^verbatim>\<open>ssKey >> key\<close>, \<open>None\<close> when it
  throws. \<open>Inr None\<close> is \<^verbatim>\<open>return false\<close>. Reading \<^verbatim>\<open>transactionIt->first\<close> at
  \<^verbatim>\<open>writes.end()\<close> is \<open>Inl InvalidIterator\<close>.
\<close>

definition GetKey_typed ::
  "(bytes \<Rightarrow> 'k option) \<Rightarrow> ('ty, 'v) CDBTransactionIterator \<Rightarrow> error + 'k option" where
  "GetKey_typed Unserialize_key it =
     (if \<not> Valid it then Inr None
      else if curIsParent it then Inr (Unserialize_key (parentKey it))
      else (case transactionIt it of
              [] \<Rightarrow> Inl InvalidIterator
            | (k, h) # rest \<Rightarrow> Inr (Unserialize_key k)))"

text \<open>The untyped \<^verbatim>\<open>GetKey()\<close>, which returns the key's stream.\<close>

definition GetKey :: "('ty, 'v) CDBTransactionIterator \<Rightarrow> error + bytes" where
  "GetKey it =
     (if \<not> Valid it then Inr []
      else if curIsParent it then Inr (parentKey it)
      else (case transactionIt it of
              [] \<Rightarrow> Inl InvalidIterator
            | (k, h) # rest \<Rightarrow> Inr k))"

text \<open>
  \<^verbatim>\<open>GetKeySize()\<close>, an \<^verbatim>\<open>unsigned int\<close>; \<open>parent_GetKeySize\<close> is \<^verbatim>\<open>parentIt->GetKeySize()\<close>
  on the parent iterator's state.
\<close>

definition GetKeySize ::
  "(bytes list \<Rightarrow> error + 32 word) \<Rightarrow> ('ty, 'v) CDBTransactionIterator \<Rightarrow> error + 32 word" where
  "GetKeySize parent_GetKeySize it =
     (if \<not> Valid it then Inr 0
      else if curIsParent it then parent_GetKeySize (parentIt it)
      else (case transactionIt it of
              [] \<Rightarrow> Inl InvalidIterator
            | (k, h) # rest \<Rightarrow> Inr (of_nat (length k))))"

text \<open>\<^verbatim>\<open>GetValue(V& value)\<close>: both legs read through the overlay's \<^verbatim>\<open>Read\<close>.\<close>

definition GetValue ::
  "(bytes \<Rightarrow> 'ty \<Rightarrow> error + 'v option) \<Rightarrow> ('ty, 'v) CDBTransaction \<Rightarrow>
   ('ty, 'v) CDBTransactionIterator \<Rightarrow> 'ty \<Rightarrow> error + 'v option" where
  "GetValue parent_Read t it V =
     (if \<not> Valid it then Inr None
      else if curIsParent it then Read parent_Read t (parentKey it) V
      else (case transactionIt it of
              [] \<Rightarrow> Inl InvalidIterator
            | (k, h) # rest \<Rightarrow> Read parent_Read t k V))"

section \<open>Clients of the overlay and of the merge iterator\<close>

text \<open>
  A full traversal, as a client writes it:
  \<^verbatim>\<open>for (it.SeekToFirst(); it.Valid(); it.Next()) keys.push_back(it.GetKey());\<close>
  The function is the loop from a given position; a fault of \<^verbatim>\<open>GetKey\<close> or \<^verbatim>\<open>Next\<close>
  ends it. It terminates because every \<^verbatim>\<open>Next\<close> of a valid iterator moves one of the
  two legs forward.
\<close>

function traverse ::
  "('ty, 'v) CDBTransaction \<Rightarrow> ('ty, 'v) CDBTransactionIterator \<Rightarrow> error + bytes list" where
  "traverse t it =
     (if \<not> Valid it then Inr []
      else case GetKey it of
             Inl e \<Rightarrow> Inl e
           | Inr k \<Rightarrow>
               (case Next t it of
                  Inl e \<Rightarrow> Inl e
                | Inr it' \<Rightarrow>
                    (case traverse t it' of
                       Inl e \<Rightarrow> Inl e
                     | Inr ks \<Rightarrow> Inr (k # ks))))"
  by pat_completeness auto
termination
proof (relation "measure (\<lambda>(t, it). length (transactionIt it) + length (parentIt it))")
  show "wf (measure (\<lambda>(t, it). length (transactionIt it) + length (parentIt it)))"
    by simp
next
  fix t :: "('ty, 'v) CDBTransaction" and it it' :: "('ty, 'v) CDBTransactionIterator" and k
  assume v: "\<not> \<not> Valid it" and n: "Next t it = Inr it'"
  have skip: "length (fst (SkipDeletedAndOverwritten_loop t p pk)) \<le> length p" for p pk
    by (induction p arbitrary: pk) (auto intro: le_SucI)
  have dc: "transactionIt (DecideCur x) = transactionIt x \<and> parentIt (DecideCur x) = parentIt x"
    for x :: "('ty, 'v) CDBTransactionIterator"
    by (simp add: DecideCur_def)
  have sk: "transactionIt (SkipDeletedAndOverwritten t x) = transactionIt x
      \<and> length (parentIt (SkipDeletedAndOverwritten t x)) \<le> length (parentIt x)"
    for x :: "('ty, 'v) CDBTransactionIterator"
    using skip [of "parentIt x" "parentKey x"]
    by (auto simp: SkipDeletedAndOverwritten_def split: prod.splits)
  show "((t, it'), (t, it)) \<in> measure (\<lambda>(t, it). length (transactionIt it) + length (parentIt it))"
  proof (cases "curIsParent it")
    case True
    with v n have p: "parentIt it \<noteq> []"
      and e: "it' = DecideCur (SkipDeletedAndOverwritten t (it\<lparr>parentIt := tl (parentIt it)\<rparr>))"
      by (auto simp: Next_def Valid_def split: if_splits)
    from p have "length (tl (parentIt it)) < length (parentIt it)"
      by (cases "parentIt it") auto
    with sk [of "it\<lparr>parentIt := tl (parentIt it)\<rparr>"] show ?thesis
      by (simp add: e dc)
  next
    case False
    with v n have p: "transactionIt it \<noteq> []"
      and e: "it' = DecideCur (it\<lparr>transactionIt := tl (transactionIt it)\<rparr>)"
      by (auto simp: Next_def Valid_def split: if_splits)
    from p have "length (tl (transactionIt it)) < length (transactionIt it)"
      by (cases "transactionIt it") auto
    then show ?thesis by (simp add: e dc)
  qed
qed

text \<open>
  The calls a client makes on an overlay. \<^verbatim>\<open>Read\<close> and \<^verbatim>\<open>Exists\<close> return a result and
  leave the overlay as it is; \<^verbatim>\<open>Commit\<close> also changes the commit target \<open>c\<close>.
\<close>

datatype ('ty, 'v) overlay_call =
  CallWrite bytes 'ty 'v
| CallErase bytes
| CallRead bytes 'ty
| CallExists bytes
| CallClear
| CallCommit

fun exec ::
  "('ty \<Rightarrow> 'v \<Rightarrow> size_t) \<Rightarrow> (bytes \<Rightarrow> 'c \<Rightarrow> 'c) \<Rightarrow> (bytes \<Rightarrow> 'ty \<Rightarrow> 'v \<Rightarrow> 'c \<Rightarrow> 'c) \<Rightarrow>
   ('ty, 'v) CDBTransaction \<times> 'c \<Rightarrow> ('ty, 'v) overlay_call \<Rightarrow> ('ty, 'v) CDBTransaction \<times> 'c" where
  "exec ssz tE tW (t, c) (CallWrite k V v) = (Write ssz k V v t, c)"
| "exec ssz tE tW (t, c) (CallErase k) = (Erase k t, c)"
| "exec ssz tE tW (t, c) (CallRead k V) = (t, c)"
| "exec ssz tE tW (t, c) (CallExists k) = (t, c)"
| "exec ssz tE tW (t, c) CallClear = (Clear t, c)"
| "exec ssz tE tW (t, c) CallCommit = Commit tE tW t c"

text \<open>A sequence of calls on a freshly constructed overlay with the commit target \<open>c\<close>.\<close>

definition run ::
  "('ty \<Rightarrow> 'v \<Rightarrow> size_t) \<Rightarrow> (bytes \<Rightarrow> 'c \<Rightarrow> 'c) \<Rightarrow> (bytes \<Rightarrow> 'ty \<Rightarrow> 'v \<Rightarrow> 'c \<Rightarrow> 'c) \<Rightarrow>
   'c \<Rightarrow> ('ty, 'v) overlay_call list \<Rightarrow> ('ty, 'v) CDBTransaction \<times> 'c" where
  "run ssz tE tW c calls = foldl (exec ssz tE tW) (CDBTransaction_new, c) calls"

text \<open>
  A commit target that only records the calls it receives, to observe the order in
  which \<^verbatim>\<open>Commit()\<close> makes them.
\<close>

datatype ('ty, 'v) target_call = TargetErase bytes | TargetWrite bytes 'ty 'v

definition record_Erase :: "bytes \<Rightarrow> ('ty, 'v) target_call list \<Rightarrow> ('ty, 'v) target_call list" where
  "record_Erase k c = c @ [TargetErase k]"

definition record_Write ::
  "bytes \<Rightarrow> 'ty \<Rightarrow> 'v \<Rightarrow> ('ty, 'v) target_call list \<Rightarrow> ('ty, 'v) target_call list" where
  "record_Write k V v c = c @ [TargetWrite k V v]"

section \<open>Predicates used in the statements\<close>

text \<open>
  What \<^verbatim>\<open>std::map\<close> and \<^verbatim>\<open>std::set\<close> guarantee of themselves: the entries are in
  strictly ascending order of \<^verbatim>\<open>DataStreamCmp\<close>, so no key occurs twice.
\<close>

definition containers_ordered :: "('ty, 'v) CDBTransaction \<Rightarrow> bool" where
  "containers_ordered t =
     (sorted_wrt DataStreamCmp_less (map fst (writes t)) \<and> sorted_wrt DataStreamCmp_less (deletes t))"

text \<open>No key is in the write-set and in the delete-set.\<close>

definition keys_disjoint :: "('ty, 'v) CDBTransaction \<Rightarrow> bool" where
  "keys_disjoint t = (set (map fst (writes t)) \<inter> set (deletes t) = {})"

text \<open>
  The sum of section 3 of the specification: key size plus serialized value size over
  the write-set, plus key size over the delete-set, as a natural number.
\<close>

definition analytic_usage :: "('ty \<Rightarrow> 'v \<Rightarrow> size_t) \<Rightarrow> ('ty, 'v) CDBTransaction \<Rightarrow> nat" where
  "analytic_usage ssz t =
     (\<Sum>(k, h)\<leftarrow>writes t. length k + unat (ssz (holder_type h) (holder_value h)))
     + (\<Sum>k\<leftarrow>deletes t. length k)"

text \<open>A parent key is shadowed when the delete-set or the write-set holds it.\<close>

definition shadowed :: "('ty, 'v) CDBTransaction \<Rightarrow> bytes \<Rightarrow> bool" where
  "shadowed t k = (set_count k (deletes t) \<or> map_count k (writes t))"

text \<open>
  Every holder of the write-set carries the serialized size of its value, as \<^verbatim>\<open>Write\<close>
  stores it.
\<close>

definition holders_sized :: "('ty \<Rightarrow> 'v \<Rightarrow> size_t) \<Rightarrow> ('ty, 'v) CDBTransaction \<Rightarrow> bool" where
  "holders_sized ssz t =
     list_all (\<lambda>(k, h). holder_memoryUsage h = ssz (holder_type h) (holder_value h)) (writes t)"

text \<open>
  The sizes the two containers hold, as the code reads them: key size plus the holder's
  \<^verbatim>\<open>memoryUsage\<close> over the write-set, key size over the delete-set; \<open>usage_word\<close> is their
  sum in the arithmetic of the counter.
\<close>

definition writes_usage :: "('ty, 'v) WritesMap \<Rightarrow> nat" where
  "writes_usage ws = (\<Sum>(k, h)\<leftarrow>ws. length k + unat (holder_memoryUsage h))"

definition deletes_usage :: "DeletesSet \<Rightarrow> nat" where
  "deletes_usage ds = (\<Sum>k\<leftarrow>ds. length k)"

definition usage_word :: "('ty, 'v) CDBTransaction \<Rightarrow> size_t" where
  "usage_word t = of_nat (writes_usage (writes t) + deletes_usage (deletes t))"

text \<open>The invariant of the accounting: ordered containers, sized holders, counter equal to the sum.\<close>

definition accounted :: "('ty \<Rightarrow> 'v \<Rightarrow> size_t) \<Rightarrow> ('ty, 'v) CDBTransaction \<Rightarrow> bool" where
  "accounted ssz t =
     (containers_ordered t \<and> holders_sized ssz t \<and> memoryUsage t = usage_word t)"

text \<open>
  The keys a traversal has still to deliver from a position: those of the transaction leg
  and the unshadowed ones of the parent leg.
\<close>

definition remaining :: "('ty, 'v) CDBTransaction \<Rightarrow> ('ty, 'v) CDBTransactionIterator \<Rightarrow> bytes set" where
  "remaining t it =
     fst ` set (transactionIt it) \<union> {k \<in> set (parentIt it). \<not> shadowed t k}"

text \<open>
  A position as \<^verbatim>\<open>SeekToFirst\<close> and \<^verbatim>\<open>Next\<close> leave it: both legs ascending, the
  transaction leg inside the write-set, the parent leg (when valid) at an unshadowed key
  that \<^verbatim>\<open>parentKey\<close> holds, and \<^verbatim>\<open>curIsParent\<close> as \<^verbatim>\<open>DecideCur\<close> sets it.
\<close>

definition positioned :: "('ty, 'v) CDBTransaction \<Rightarrow> ('ty, 'v) CDBTransactionIterator \<Rightarrow> bool" where
  "positioned t it =
     (sorted_wrt DataStreamCmp_less (map fst (transactionIt it))
      \<and> fst ` set (transactionIt it) \<subseteq> fst ` set (writes t)
      \<and> sorted_wrt DataStreamCmp_less (parentIt it)
      \<and> (parentIt it \<noteq> [] \<longrightarrow> parentKey it = hd (parentIt it) \<and> \<not> shadowed t (parentKey it))
      \<and> DecideCur it = it)"

section \<open>Facts about the order and the containers\<close>

lemma map_find_None_iff: "map_find k ws = None \<longleftrightarrow> k \<notin> fst ` set ws"
  by (induction ws) (auto split: if_splits)

lemma map_find_Some_key: "map_find k ws = Some h \<Longrightarrow> (k, h) \<in> set ws"
  by (induction ws) (auto split: if_splits)

subsection \<open>The order of keys is a strict total order\<close>

lemma dsless_irrefl: "\<not> DataStreamCmp_less a a"
  by (induction a) auto

lemma dsless_trans: "DataStreamCmp_less a b \<Longrightarrow> DataStreamCmp_less b c \<Longrightarrow> DataStreamCmp_less a c"
proof (induction a b arbitrary: c rule: DataStreamCmp_less.induct)
  case (1)
  then show ?case by simp
next
  case (2 b bs)
  then show ?case by (cases c) auto
next
  case (3 a as)
  then show ?case by simp
next
  case (4 a as b bs)
  then show ?case by (cases c) (auto split: if_splits)
qed

lemma dsless_total: "\<not> DataStreamCmp_less a b \<Longrightarrow> \<not> DataStreamCmp_less b a \<Longrightarrow> a = b"
  by (induction a b rule: DataStreamCmp_less.induct) (auto split: if_splits)

lemma dsless_asym: "DataStreamCmp_less a b \<Longrightarrow> \<not> DataStreamCmp_less b a"
  using dsless_trans dsless_irrefl by blast

lemma dsless_neq: "DataStreamCmp_less a b \<Longrightarrow> a \<noteq> b"
  using dsless_irrefl by blast

lemma sorted_dsless_distinct: "sorted_wrt DataStreamCmp_less ks \<Longrightarrow> distinct ks"
  by (induction ks) (auto dest: dsless_neq)

subsection \<open>The delete-set\<close>

lemma set_set_emplace: "set (set_emplace k ds) = insert k (set ds)"
  by (induction ds) (auto dest: dsless_total)

lemma sorted_set_emplace:
  "sorted_wrt DataStreamCmp_less ds \<Longrightarrow> sorted_wrt DataStreamCmp_less (set_emplace k ds)"
proof (induction ds)
  case Nil
  then show ?case by simp
next
  case (Cons d ds)
  have "DataStreamCmp_less d x" if "x \<in> set (set_emplace k ds)" "DataStreamCmp_less d k" for x
    using that Cons.prems by (auto simp: set_set_emplace)
  with Cons show ?case
    by (auto intro: dsless_trans)
qed

lemma set_set_erase:
  "sorted_wrt DataStreamCmp_less ds \<Longrightarrow> set (set_erase k ds) = set ds - {k}"
  by (induction ds) (auto dest: dsless_neq)

lemma sorted_set_erase:
  "sorted_wrt DataStreamCmp_less ds \<Longrightarrow> sorted_wrt DataStreamCmp_less (set_erase k ds)"
proof (induction ds)
  case Nil
  then show ?case by simp
next
  case (Cons d ds)
  then show ?case by (auto simp: set_set_erase)
qed

subsection \<open>The write-set\<close>

lemma keys_map_put: "fst ` set (map_put k h ws) = insert k (fst ` set ws)"
proof (induction ws)
  case Nil
  then show ?case by simp
next
  case (Cons e ws)
  obtain k' h' where e: "e = (k', h')" by (cases e)
  show ?case
  proof (cases "DataStreamCmp_less k k'")
    case True
    then show ?thesis by (simp add: e)
  next
    case False
    show ?thesis
    proof (cases "DataStreamCmp_less k' k")
      case True
      with False Cons show ?thesis by (simp add: e insert_commute)
    next
      case nl: False
      with False have "k = k'" by (rule dsless_total)
      with False show ?thesis by (simp add: e)
    qed
  qed
qed

lemma sorted_map_put:
  "sorted_wrt DataStreamCmp_less (map fst ws) \<Longrightarrow>
   sorted_wrt DataStreamCmp_less (map fst (map_put k h ws))"
proof (induction ws)
  case Nil
  then show ?case by simp
next
  case (Cons e ws)
  obtain k' h' where e: "e = (k', h')" by (cases e)
  from Cons.prems have s: "sorted_wrt DataStreamCmp_less (map fst ws)"
    and m: "\<forall>x\<in>fst ` set ws. DataStreamCmp_less k' x"
    by (auto simp: e)
  show ?case
  proof (cases "DataStreamCmp_less k k'")
    case True
    with m have "\<forall>x\<in>fst ` set ws. DataStreamCmp_less k x"
      by (blast intro: dsless_trans)
    with True s m show ?thesis by (simp add: e image_iff Ball_def) 
  next
    case False
    show ?thesis
    proof (cases "DataStreamCmp_less k' k")
      case True
      with m have "\<forall>x\<in>fst ` set (map_put k h ws). DataStreamCmp_less k' x"
        by (simp add: keys_map_put)
      with False True Cons.IH [OF s] show ?thesis by (simp add: e image_iff Ball_def)
    next
      case nl: False
      with False have "k = k'" by (rule dsless_total)
      with False s m show ?thesis by (simp add: e image_iff Ball_def)
    qed
  qed
qed

lemma map_find_map_put:
  "map_find k' (map_put k h ws) = (if k' = k then Some h else map_find k' ws)"
proof (induction ws)
  case Nil
  then show ?case by simp
next
  case (Cons e ws)
  obtain k'' h'' where e: "e = (k'', h'')" by (cases e)
  show ?case
  proof (cases "DataStreamCmp_less k k''")
    case True
    then show ?thesis by (simp add: e)
  next
    case False
    show ?thesis
    proof (cases "DataStreamCmp_less k'' k")
      case True
      then have "k'' \<noteq> k" by (rule dsless_neq)
      with False True Cons show ?thesis by (auto simp: e)
    next
      case nl: False
      with False have "k = k''" by (rule dsless_total)
      with False show ?thesis by (simp add: e)
    qed
  qed
qed

lemma keys_map_erase:
  "sorted_wrt DataStreamCmp_less (map fst ws) \<Longrightarrow>
   fst ` set (map_erase k ws) = fst ` set ws - {k}"
proof (induction ws)
  case Nil
  then show ?case by simp
next
  case (Cons e ws)
  obtain k' h' where e: "e = (k', h')" by (cases e)
  from Cons.prems have s: "sorted_wrt DataStreamCmp_less (map fst ws)"
    and m: "\<forall>x\<in>fst ` set ws. DataStreamCmp_less k' x"
    by (auto simp: e)
  from m have n: "k' \<notin> fst ` set ws" using dsless_irrefl by blast
  show ?case
  proof (cases "k' = k")
    case True
    with n show ?thesis by (simp add: e)
  next
    case False
    with Cons.IH [OF s] show ?thesis by (auto simp: e)
  qed
qed

lemma sorted_map_erase:
  "sorted_wrt DataStreamCmp_less (map fst ws) \<Longrightarrow>
   sorted_wrt DataStreamCmp_less (map fst (map_erase k ws))"
proof (induction ws)
  case Nil
  then show ?case by simp
next
  case (Cons e ws)
  obtain k' h' where e: "e = (k', h')" by (cases e)
  from Cons.prems have s: "sorted_wrt DataStreamCmp_less (map fst ws)"
    and m: "\<forall>x\<in>fst ` set ws. DataStreamCmp_less k' x"
    by (auto simp: e)
  from m have "\<forall>x\<in>fst ` set (map_erase k ws). DataStreamCmp_less k' x"
    by (auto simp: keys_map_erase [OF s])
  with s Cons.IH [OF s] show ?case by (simp add: e image_iff Ball_def)
qed

section \<open>Invariants of the overlay\<close>

subsection \<open>What each call does to the two containers\<close>

lemma writes_Write [simp]:
  "writes (Write ssz k V v t) = map_put k (ValueHolderImpl V v (ssz V v)) (writes t)"
  by (simp add: Write_def Let_def)

lemma deletes_Write [simp]: "deletes (Write ssz k V v t) = set_erase k (deletes t)"
  by (simp add: Write_def Let_def)

lemma writes_Erase [simp]:
  "writes (Erase k t) = (if map_find k (writes t) = None then writes t else map_erase k (writes t))"
  by (simp add: Erase_def Let_def split: option.splits)

lemma deletes_Erase [simp]: "deletes (Erase k t) = set_emplace k (deletes t)"
  by (simp add: Erase_def Let_def split: option.splits)

lemma ordered_new: "containers_ordered CDBTransaction_new"
  by (simp add: containers_ordered_def CDBTransaction_new_def)

lemma ordered_Clear: "containers_ordered (Clear t)"
  by (simp add: containers_ordered_def Clear_def)

lemma ordered_Write: "containers_ordered t \<Longrightarrow> containers_ordered (Write ssz k V v t)"
  by (simp add: containers_ordered_def sorted_map_put sorted_set_erase)

lemma ordered_Erase: "containers_ordered t \<Longrightarrow> containers_ordered (Erase k t)"
  by (simp add: containers_ordered_def sorted_map_erase sorted_set_emplace)

lemma disjoint_Clear: "keys_disjoint (Clear t)"
  by (simp add: keys_disjoint_def Clear_def)

lemma disjoint_Write:
  "containers_ordered t \<Longrightarrow> keys_disjoint t \<Longrightarrow> keys_disjoint (Write ssz k V v t)"
  by (auto simp: containers_ordered_def keys_disjoint_def keys_map_put set_set_erase)

lemma disjoint_Erase:
  "containers_ordered t \<Longrightarrow> keys_disjoint t \<Longrightarrow> keys_disjoint (Erase k t)"
  by (auto simp: containers_ordered_def keys_disjoint_def keys_map_erase set_set_emplace
      map_find_None_iff)

lemma fst_Commit: "fst (Commit tE tW t c) = Clear t"
  by (simp add: Commit_def Let_def)

lemma exec_ordered_disjoint:
  "containers_ordered (fst s) \<and> keys_disjoint (fst s) \<Longrightarrow>
   containers_ordered (fst (exec ssz tE tW s call)) \<and> keys_disjoint (fst (exec ssz tE tW s call))"
  by (cases s; cases call)
    (simp_all add: ordered_Write ordered_Erase ordered_Clear disjoint_Write disjoint_Erase
      disjoint_Clear fst_Commit)

lemma foldl_exec_ordered_disjoint:
  "containers_ordered (fst s) \<and> keys_disjoint (fst s) \<Longrightarrow>
   containers_ordered (fst (foldl (exec ssz tE tW) s calls))
   \<and> keys_disjoint (fst (foldl (exec ssz tE tW) s calls))"
proof (induction calls arbitrary: s)
  case Nil
  then show ?case by simp
next
  case (Cons call calls)
  from Cons.prems have "containers_ordered (fst (exec ssz tE tW s call))
      \<and> keys_disjoint (fst (exec ssz tE tW s call))"
    by (rule exec_ordered_disjoint)
  then show ?case using Cons.IH by simp
qed

lemma run_ordered_disjoint:
  "containers_ordered (fst (run ssz tE tW c calls)) \<and> keys_disjoint (fst (run ssz tE tW c calls))"
  unfolding run_def
  by (rule foldl_exec_ordered_disjoint)
    (simp add: containers_ordered_def keys_disjoint_def CDBTransaction_new_def)

text \<open>
  Claim C4. After any sequence of calls on a fresh overlay no key is in both the
  write-set and the delete-set. Every call (\<^verbatim>\<open>Write\<close>, \<^verbatim>\<open>Erase\<close>, \<^verbatim>\<open>Read\<close>, \<^verbatim>\<open>Exists\<close>,
  \<^verbatim>\<open>Clear\<close>, \<^verbatim>\<open>Commit\<close>) keeps the containers ordered and disjoint. \<^verbatim>\<open>Write\<close> leaves
  its key out of the delete-set and in the write-set; \<^verbatim>\<open>Erase\<close> leaves its key out of the
  write-set and in the delete-set.
\<close>

theorem write_delete_sets_disjoint:
  "keys_disjoint (fst (run ssz tE tW c calls))
   \<and> (containers_ordered t \<and> keys_disjoint t \<longrightarrow>
        containers_ordered (fst (exec ssz tE tW (t, c) call))
        \<and> keys_disjoint (fst (exec ssz tE tW (t, c) call)))
   \<and> (containers_ordered t \<longrightarrow>
        k \<notin> set (deletes (Write ssz k V v t)) \<and> k \<in> fst ` set (writes (Write ssz k V v t))
        \<and> k \<notin> fst ` set (writes (Erase k t)) \<and> k \<in> set (deletes (Erase k t)))"
proof -
  have a: "keys_disjoint (fst (run ssz tE tW c calls))"
    by (simp add: run_ordered_disjoint)
  have b: "containers_ordered (fst (exec ssz tE tW (t, c) call))
        \<and> keys_disjoint (fst (exec ssz tE tW (t, c) call))"
    if "containers_ordered t \<and> keys_disjoint t"
    using exec_ordered_disjoint [of "(t, c)" ssz tE tW call] that by simp
  have c: "k \<notin> set (deletes (Write ssz k V v t)) \<and> k \<in> fst ` set (writes (Write ssz k V v t))
        \<and> k \<notin> fst ` set (writes (Erase k t)) \<and> k \<in> set (deletes (Erase k t))"
    if "containers_ordered t"
    using that
    by (auto simp: containers_ordered_def keys_map_put set_set_erase keys_map_erase
        set_set_emplace map_find_None_iff)
  from a b c show ?thesis by blast
qed

theorem write_delete_sets_disjoint_witness:
  "containers_ordered (\<lparr>writes = [([2], ValueHolderImpl 0 7 1)], deletes = [[1]], memoryUsage = 3\<rparr>
                        :: (nat, nat) CDBTransaction)
   \<and> keys_disjoint (\<lparr>writes = [([2], ValueHolderImpl 0 7 1)], deletes = [[1]], memoryUsage = 3\<rparr>
                        :: (nat, nat) CDBTransaction)
   \<and> keys_disjoint (fst (exec (\<lambda>V v. 1) record_Erase record_Write
        (\<lparr>writes = [([2], ValueHolderImpl 0 7 1)], deletes = [[1]], memoryUsage = 3\<rparr>
           :: (nat, nat) CDBTransaction, []) (CallWrite [1] 0 9)))
   \<and> [1] \<notin> set (deletes (Write (\<lambda>V v. 1) [1] 0 9
        (\<lparr>writes = [([2], ValueHolderImpl 0 7 1)], deletes = [[1]], memoryUsage = 3\<rparr>
           :: (nat, nat) CDBTransaction)))
   \<and> [2] \<notin> fst ` set (writes (Erase [2]
        (\<lparr>writes = [([2], ValueHolderImpl 0 7 1)], deletes = [[1]], memoryUsage = 3\<rparr>
           :: (nat, nat) CDBTransaction)))"
  using write_delete_sets_disjoint
    [of "\<lambda>V v. 1" record_Erase record_Write "[]" "[]"
        "\<lparr>writes = [([2], ValueHolderImpl 0 7 1)], deletes = [[1]], memoryUsage = 3\<rparr>
           :: (nat, nat) CDBTransaction" "CallWrite [1] 0 9" "[1]" 0 9]
    write_delete_sets_disjoint
    [of "\<lambda>V v. 1" record_Erase record_Write "[]" "[]"
        "\<lparr>writes = [([2], ValueHolderImpl 0 7 1)], deletes = [[1]], memoryUsage = 3\<rparr>
           :: (nat, nat) CDBTransaction" "CallWrite [1] 0 9" "[2]" 0 9]
  by (simp add: containers_ordered_def keys_disjoint_def)

section \<open>Reads of the overlay and of the store\<close>

text \<open>
  Claim C3. \<^verbatim>\<open>Read\<close> and \<^verbatim>\<open>Exists\<close> of the overlay apply one precedence. A key of the
  delete-set is not found and does not exist, whatever the write-set and the parent hold.
  Otherwise a key of the write-set yields the held value (read at the held type) and
  exists. Otherwise both calls return what the parent's \<^verbatim>\<open>Read\<close> and \<^verbatim>\<open>Exists\<close> return.
\<close>

theorem overlay_read_exists_precedence:
  "(k \<in> set (deletes t) \<longrightarrow>
      Read parent_Read t k V = Inr None \<and> Exists parent_Exists t k = False)
   \<and> (k \<notin> set (deletes t) \<and> map_find k (writes t) = Some h \<longrightarrow>
        Read parent_Read t k (holder_type h) = Inr (Some (holder_value h))
        \<and> Exists parent_Exists t k = True)
   \<and> (k \<notin> set (deletes t) \<and> k \<notin> fst ` set (writes t) \<longrightarrow>
        Read parent_Read t k V = parent_Read k V
        \<and> Exists parent_Exists t k = parent_Exists k)"
  by (simp add: Read_def Exists_def set_count_def map_count_def map_find_None_iff [symmetric])

theorem overlay_read_exists_precedence_witness:
  "([1] \<in> set (deletes (\<lparr>writes = [([2], ValueHolderImpl 0 7 1)], deletes = [[1]], memoryUsage = 3\<rparr>
                          :: (nat, nat) CDBTransaction))
    \<and> Read (\<lambda>k V. Inr (Some 9))
         (\<lparr>writes = [([2], ValueHolderImpl 0 7 1)], deletes = [[1]], memoryUsage = 3\<rparr>
            :: (nat, nat) CDBTransaction) [1] 0 = Inr None)
   \<and> ([2] \<notin> set (deletes (\<lparr>writes = [([2], ValueHolderImpl 0 7 1)], deletes = [[1]], memoryUsage = 3\<rparr>
                          :: (nat, nat) CDBTransaction))
    \<and> Read (\<lambda>k V. Inr (Some 9))
         (\<lparr>writes = [([2], ValueHolderImpl 0 7 1)], deletes = [[1]], memoryUsage = 3\<rparr>
            :: (nat, nat) CDBTransaction) [2] 0 = Inr (Some 7))
   \<and> (Read (\<lambda>k V. Inr (Some 9))
         (\<lparr>writes = [([2], ValueHolderImpl 0 7 1)], deletes = [[1]], memoryUsage = 3\<rparr>
            :: (nat, nat) CDBTransaction) [3] 0 = Inr (Some 9)
    \<and> Exists (\<lambda>k. True)
         (\<lparr>writes = [([2], ValueHolderImpl 0 7 1)], deletes = [[1]], memoryUsage = 3\<rparr>
            :: (nat, nat) CDBTransaction) [3])"
  using overlay_read_exists_precedence
    [of "[1]" "\<lparr>writes = [([2], ValueHolderImpl 0 7 1)], deletes = [[1]], memoryUsage = 3\<rparr>
                 :: (nat, nat) CDBTransaction"
        "\<lambda>k V. Inr (Some 9)" 0 "\<lambda>k. True" "ValueHolderImpl 0 7 1"]
    overlay_read_exists_precedence
    [of "[2]" "\<lparr>writes = [([2], ValueHolderImpl 0 7 1)], deletes = [[1]], memoryUsage = 3\<rparr>
                 :: (nat, nat) CDBTransaction"
        "\<lambda>k V. Inr (Some 9)" 0 "\<lambda>k. True" "ValueHolderImpl 0 7 1"]
    overlay_read_exists_precedence
    [of "[3]" "\<lparr>writes = [([2], ValueHolderImpl 0 7 1)], deletes = [[1]], memoryUsage = 3\<rparr>
                 :: (nat, nat) CDBTransaction"
        "\<lambda>k V. Inr (Some 9)" 0 "\<lambda>k. True" "ValueHolderImpl 0 7 1"]
  by simp

text \<open>
  Claim C8. The typed \<^verbatim>\<open>Read\<close> of the store wrapper returns false when the engine has
  no entry for the key, and also when the stored bytes do not deserialize at the requested
  type. A fault of the call is always a fault of the engine's read, never a decode
  failure. \<^verbatim>\<open>CDBIterator::GetValue\<close> swallows a decode failure in the same way.
\<close>

theorem CDBWrapper_Read_not_found:
  "(ReadImpl (Serialize key) = Inr None \<longrightarrow>
      CDBWrapper_Read Serialize ReadImpl Xor Unserialize obfuscate_key key V = Inr None)
   \<and> (ReadImpl (Serialize key) = Inr (Some strValue)
        \<and> Unserialize V (Xor obfuscate_key strValue) = None \<longrightarrow>
      CDBWrapper_Read Serialize ReadImpl Xor Unserialize obfuscate_key key V = Inr None)
   \<and> (ReadImpl (Serialize key) = Inr (Some strValue)
        \<and> Unserialize V (Xor obfuscate_key strValue) = Some x \<longrightarrow>
      CDBWrapper_Read Serialize ReadImpl Xor Unserialize obfuscate_key key V = Inr (Some x))
   \<and> (CDBWrapper_Read Serialize ReadImpl Xor Unserialize obfuscate_key key V = Inl e \<longrightarrow>
      ReadImpl (Serialize key) = Inl e)
   \<and> (Unserialize V (Xor obfuscate_key valueImpl) = None \<longrightarrow>
      CDBIterator_GetValue Xor Unserialize obfuscate_key valueImpl V = None)"
  by (auto simp: CDBWrapper_Read_def CDBIterator_GetValue_def split: sum.splits option.splits)

theorem CDBWrapper_Read_not_found_witness:
  "CDBWrapper_Read (\<lambda>k. k) (\<lambda>k. if k = [1] then Inr (Some [255]) else Inr None)
        (\<lambda>key bs. bs) (\<lambda>V bs. if bs = [0] then Some (0::nat) else None) [] [2] (0::nat) = Inr None
   \<and> CDBWrapper_Read (\<lambda>k. k) (\<lambda>k. if k = [1] then Inr (Some [255]) else Inr None)
        (\<lambda>key bs. bs) (\<lambda>V bs. if bs = [0] then Some (0::nat) else None) [] [1] (0::nat) = Inr None
   \<and> CDBIterator_GetValue (\<lambda>key bs. bs) (\<lambda>V bs. if bs = [0] then Some (0::nat) else None)
        [] [255] (0::nat) = None"
  using CDBWrapper_Read_not_found
    [of "\<lambda>k. if k = [1] then Inr (Some [255]) else Inr None" "\<lambda>k. k" "[2]"
        "\<lambda>key bs. bs" "\<lambda>V bs. if bs = [0] then Some (0::nat) else None" "[]" "0::nat" "[255]" 0
        EngineFailure "[255]"]
    CDBWrapper_Read_not_found
    [of "\<lambda>k. if k = [1] then Inr (Some [255]) else Inr None" "\<lambda>k. k" "[1]"
        "\<lambda>key bs. bs" "\<lambda>V bs. if bs = [0] then Some (0::nat) else None" "[]" "0::nat" "[255]" 0
        EngineFailure "[255]"]
  by simp

lemma set_erase_keeps: "x \<in> set ds \<Longrightarrow> x \<noteq> k \<Longrightarrow> x \<in> set (set_erase k ds)"
  by (induction ds) auto

text \<open>
  Claim C9. For a key of the write-set, \<^verbatim>\<open>Read\<close> at a type other than the held one throws
  (it neither returns false nor delivers the held value), and \<^verbatim>\<open>Read\<close> at the held type
  returns the held value: in every overlay whose two sets are disjoint, so in the overlay
  after any sequence of calls. After \<^verbatim>\<open>Write\<close> of \<open>v\<close> at type \<open>W\<close> the held type is \<open>W\<close> and the
  held value is \<open>v\<close>.
\<close>

theorem overlay_read_type_mismatch:
  "(keys_disjoint t \<and> map_find k (writes t) = Some h \<longrightarrow>
      (V \<noteq> holder_type h \<longrightarrow> Read parent_Read t k V = Inl TypeMismatch)
      \<and> Read parent_Read t k (holder_type h) = Inr (Some (holder_value h)))
   \<and> (map_find k (writes (fst (run ssz tE tW c calls))) = Some h \<longrightarrow>
        (V \<noteq> holder_type h \<longrightarrow>
           Read parent_Read (fst (run ssz tE tW c calls)) k V = Inl TypeMismatch)
        \<and> Read parent_Read (fst (run ssz tE tW c calls)) k (holder_type h)
            = Inr (Some (holder_value h)))
   \<and> (containers_ordered t \<longrightarrow>
        Read parent_Read (Write ssz k W v t) k W = Inr (Some v)
        \<and> (V \<noteq> W \<longrightarrow> Read parent_Read (Write ssz k W v t) k V = Inl TypeMismatch))"
proof -
  have a: "(V \<noteq> holder_type h \<longrightarrow> Read parent_Read t k V = Inl TypeMismatch)
      \<and> Read parent_Read t k (holder_type h) = Inr (Some (holder_value h))"
    if d: "keys_disjoint t" and f: "map_find k (writes t) = Some h" for t
  proof -
    from f have "k \<in> fst ` set (writes t)"
      using map_find_None_iff [of k "writes t"] by simp
    with d have "k \<notin> set (deletes t)"
      by (auto simp: keys_disjoint_def)
    with f show ?thesis
      by (simp add: Read_def set_count_def)
  qed
  have b: "Read parent_Read (Write ssz k W v t) k W = Inr (Some v)
      \<and> (V \<noteq> W \<longrightarrow> Read parent_Read (Write ssz k W v t) k V = Inl TypeMismatch)"
    if o: "containers_ordered t"
  proof -
    from o have "k \<notin> set (set_erase k (deletes t))"
      by (simp add: containers_ordered_def set_set_erase)
    then show ?thesis
      by (simp add: Read_def set_count_def map_find_map_put)
  qed
  have r: "keys_disjoint (fst (run ssz tE tW c calls))"
    by (simp add: run_ordered_disjoint)
  from a [of t] a [OF r] b show ?thesis by blast
qed

theorem overlay_read_type_mismatch_witness:
  "keys_disjoint (\<lparr>writes = [([2], ValueHolderImpl 0 7 1)], deletes = [[1]], memoryUsage = 4\<rparr>
                    :: (nat, nat) CDBTransaction)
   \<and> containers_ordered (\<lparr>writes = [([2], ValueHolderImpl 0 7 1)], deletes = [[1]], memoryUsage = 4\<rparr>
                    :: (nat, nat) CDBTransaction)
   \<and> Read (\<lambda>k V. Inr None)
        (\<lparr>writes = [([2], ValueHolderImpl 0 7 1)], deletes = [[1]], memoryUsage = 4\<rparr>
           :: (nat, nat) CDBTransaction) [2] 1 = Inl TypeMismatch
   \<and> Read (\<lambda>k V. Inr None)
        (\<lparr>writes = [([2], ValueHolderImpl 0 7 1)], deletes = [[1]], memoryUsage = 4\<rparr>
           :: (nat, nat) CDBTransaction) [2] 0 = Inr (Some 7)
   \<and> Read (\<lambda>k V. Inr None)
        (Write (\<lambda>V v. 1) [1] 5 9
          (\<lparr>writes = [([2], ValueHolderImpl 0 7 1)], deletes = [[1]], memoryUsage = 4\<rparr>
             :: (nat, nat) CDBTransaction)) [1] 1 = Inl TypeMismatch"
  using overlay_read_type_mismatch
    [where t = "\<lparr>writes = [([2], ValueHolderImpl 0 7 1)], deletes = [[1]], memoryUsage = 4\<rparr>
                  :: (nat, nat) CDBTransaction"
       and k = "[2]" and h = "ValueHolderImpl 0 7 1" and V = 1 and parent_Read = "\<lambda>k V. Inr None"
       and ssz = "\<lambda>V v. 1" and W = 0 and v = 7
       and tE = record_Erase and tW = record_Write and c = "[]" and calls = "[]"]
    overlay_read_type_mismatch
    [where t = "\<lparr>writes = [([2], ValueHolderImpl 0 7 1)], deletes = [[1]], memoryUsage = 4\<rparr>
                  :: (nat, nat) CDBTransaction"
       and k = "[1]" and h = "ValueHolderImpl 0 7 1" and V = 1 and parent_Read = "\<lambda>k V. Inr None"
       and ssz = "\<lambda>V v. 1" and W = 5 and v = 9
       and tE = record_Erase and tW = record_Write and c = "[]" and calls = "[]"]
  by (simp add: keys_disjoint_def containers_ordered_def)

section \<open>Commit\<close>

lemma foldl_record_Erase:
  "foldl (\<lambda>c k. record_Erase k c) c ks = c @ map TargetErase ks"
  by (induction ks arbitrary: c) (simp_all add: record_Erase_def)

lemma foldl_record_Write:
  "foldl (\<lambda>c (k, h). record_Write k (holder_type h) (holder_value h) c) c ws
     = c @ map (\<lambda>(k, h). TargetWrite k (holder_type h) (holder_value h)) ws"
  by (induction ws arbitrary: c) (auto simp: record_Write_def)

lemma foldl_Erase_deletes:
  "x \<in> set ks \<or> x \<in> set (deletes c) \<Longrightarrow> x \<in> set (deletes (foldl (\<lambda>c k. Erase k c) c ks))"
proof (induction ks arbitrary: c)
  case Nil
  then show ?case by simp
next
  case (Cons k ks)
  from Cons.prems have "x \<in> set ks \<or> x \<in> set (deletes (Erase k c))"
    by (auto simp: set_set_emplace)
  then show ?case using Cons.IH by simp
qed

lemma foldl_Write_deletes:
  "x \<in> set (deletes c) \<Longrightarrow> x \<notin> fst ` set ws \<Longrightarrow>
   x \<in> set (deletes (foldl (\<lambda>c (k, h). Write ssz k (holder_type h) (holder_value h) c) c ws))"
proof (induction ws arbitrary: c)
  case Nil
  then show ?case by simp
next
  case (Cons e ws)
  obtain k h where e: "e = (k, h)" by (cases e)
  from Cons.prems have "x \<in> set (deletes (Write ssz k (holder_type h) (holder_value h) c))"
    by (simp add: e set_erase_keeps)
  moreover from Cons.prems have "x \<notin> fst ` set ws" by simp
  ultimately show ?case using Cons.IH by (simp add: e)
qed

text \<open>
  Claim C7. \<^verbatim>\<open>Commit\<close> calls the target's \<^verbatim>\<open>Erase\<close> for every key of the delete-set, then
  the target's \<^verbatim>\<open>Write\<close> for every entry of the write-set with the held value, as the
  recording target shows; afterwards both containers are empty and the counter is 0.
  So after \<^verbatim>\<open>Erase(k)\<close> and \<^verbatim>\<open>Commit()\<close> into a target overlay, \<^verbatim>\<open>Read\<close> of \<open>k\<close> on the
  target returns false, whatever the target and the target's parent held before.
\<close>

theorem commit_erases_then_writes:
  "snd (Commit record_Erase record_Write t c)
     = c @ map TargetErase (deletes t)
         @ map (\<lambda>(k, h). TargetWrite k (holder_type h) (holder_value h)) (writes t)
   \<and> fst (Commit tE tW t d) = \<lparr>writes = [], deletes = [], memoryUsage = 0\<rparr>
   \<and> (containers_ordered t \<longrightarrow>
        Read parent_Read (snd (Commit Erase (Write ssz) (Erase k t) target)) k V = Inr None)"
proof -
  have a: "snd (Commit record_Erase record_Write t c)
     = c @ map TargetErase (deletes t)
         @ map (\<lambda>(k, h). TargetWrite k (holder_type h) (holder_value h)) (writes t)"
    by (simp add: Commit_def Let_def foldl_record_Erase foldl_record_Write)
  have b: "fst (Commit tE tW t d) = \<lparr>writes = [], deletes = [], memoryUsage = 0\<rparr>"
    by (simp add: Commit_def Let_def Clear_def)
  have c: "Read parent_Read (snd (Commit Erase (Write ssz) (Erase k t) target)) k V = Inr None"
    if o: "containers_ordered t"
  proof -
    let ?c1 = "foldl (\<lambda>c k. Erase k c) target (deletes (Erase k t))"
    have "k \<in> set (deletes (Erase k t))" by (simp add: set_set_emplace)
    then have 1: "k \<in> set (deletes ?c1)" by (simp add: foldl_Erase_deletes)
    from o have 2: "k \<notin> fst ` set (writes (Erase k t))"
      by (auto simp: containers_ordered_def keys_map_erase map_find_None_iff)
    from 1 2 have "k \<in> set (deletes (snd (Commit Erase (Write ssz) (Erase k t) target)))"
      by (simp add: Commit_def Let_def foldl_Write_deletes)
    then show ?thesis by (simp add: Read_def set_count_def)
  qed
  from a b c show ?thesis by blast
qed

theorem commit_erases_then_writes_witness:
  "containers_ordered (\<lparr>writes = [([1], ValueHolderImpl 0 7 1), ([2], ValueHolderImpl 0 8 1)],
                        deletes = [], memoryUsage = 4\<rparr> :: (nat, nat) CDBTransaction)
   \<and> Read (\<lambda>k V. Inr (Some 3))
        (\<lparr>writes = [([1], ValueHolderImpl 0 5 1)], deletes = [], memoryUsage = 2\<rparr>
           :: (nat, nat) CDBTransaction) [1] 0 = Inr (Some 5)
   \<and> Read (\<lambda>k V. Inr (Some 3))
        (snd (Commit Erase (Write (\<lambda>V v. 1))
               (Erase [1] (\<lparr>writes = [([1], ValueHolderImpl 0 7 1), ([2], ValueHolderImpl 0 8 1)],
                              deletes = [], memoryUsage = 4\<rparr> :: (nat, nat) CDBTransaction))
               (\<lparr>writes = [([1], ValueHolderImpl 0 5 1)], deletes = [], memoryUsage = 2\<rparr>
                  :: (nat, nat) CDBTransaction))) [1] 0 = Inr None"
  using commit_erases_then_writes
    [of "\<lparr>writes = [([1], ValueHolderImpl 0 7 1), ([2], ValueHolderImpl 0 8 1)],
           deletes = [], memoryUsage = 4\<rparr> :: (nat, nat) CDBTransaction" "[]"
        "\<lambda>k c. c" "\<lambda>k V v c. c" "0::nat" "\<lambda>k V. Inr (Some 3)" "\<lambda>V v. 1" "[1]"
        "\<lparr>writes = [([1], ValueHolderImpl 0 5 1)], deletes = [], memoryUsage = 2\<rparr>
           :: (nat, nat) CDBTransaction" 0]
  by (simp add: containers_ordered_def Read_def set_count_def)

section \<open>Memory accounting\<close>

subsection \<open>The sizes held by the containers\<close>

lemma writes_usage_Cons [simp]:
  "writes_usage ((k, h) # ws) = length k + unat (holder_memoryUsage h) + writes_usage ws"
  by (simp add: writes_usage_def)

lemma writes_usage_Nil [simp]: "writes_usage [] = 0"
  by (simp add: writes_usage_def)

lemma writes_usage_map_put:
  "sorted_wrt DataStreamCmp_less (map fst ws) \<Longrightarrow>
   writes_usage (map_put k h ws)
     + (case map_find k ws of Some old \<Rightarrow> length k + unat (holder_memoryUsage old) | None \<Rightarrow> 0)
   = writes_usage ws + (length k + unat (holder_memoryUsage h))"
proof (induction ws)
  case Nil
  then show ?case by simp
next
  case (Cons e ws)
  obtain k' h' where e: "e = (k', h')" by (cases e)
  from Cons.prems have s: "sorted_wrt DataStreamCmp_less (map fst ws)"
    and m: "\<forall>x\<in>fst ` set ws. DataStreamCmp_less k' x"
    by (auto simp: e)
  show ?case
  proof (cases "DataStreamCmp_less k k'")
    case True
    then have "k' \<noteq> k" using dsless_irrefl by blast
    have "k \<notin> fst ` set ws"
    proof
      assume "k \<in> fst ` set ws"
      with m have "DataStreamCmp_less k' k" by blast
      with True show False using dsless_asym by blast
    qed
    then have "map_find k ws = None" by (simp add: map_find_None_iff)
    with True \<open>k' \<noteq> k\<close> show ?thesis by (simp add: e)
  next
    case False
    show ?thesis
    proof (cases "DataStreamCmp_less k' k")
      case True
      then have "k' \<noteq> k" by (rule dsless_neq)
      with False True Cons.IH [OF s] show ?thesis by (simp add: e)
    next
      case nl: False
      with False have "k = k'" by (rule dsless_total)
      with False show ?thesis by (simp add: e)
    qed
  qed
qed

lemma writes_usage_map_erase:
  "map_find k ws = Some old \<Longrightarrow>
   writes_usage (map_erase k ws) + (length k + unat (holder_memoryUsage old)) = writes_usage ws"
proof (induction ws)
  case Nil
  then show ?case by simp
next
  case (Cons e ws)
  then show ?case by (cases e) (auto split: if_splits)
qed

lemma deletes_usage_set_emplace:
  "sorted_wrt DataStreamCmp_less ds \<Longrightarrow>
   deletes_usage (set_emplace k ds) = deletes_usage ds + (if k \<in> set ds then 0 else length k)"
proof (induction ds)
  case Nil
  then show ?case by (simp add: deletes_usage_def)
next
  case (Cons d ds)
  from Cons.prems have s: "sorted_wrt DataStreamCmp_less ds"
    and m: "\<forall>x\<in>set ds. DataStreamCmp_less d x"
    by auto
  show ?case
  proof (cases "DataStreamCmp_less k d")
    case True
    then have "k \<noteq> d" by (rule dsless_neq)
    have "k \<notin> set ds"
    proof
      assume "k \<in> set ds"
      with m have "DataStreamCmp_less d k" by blast
      with True show False using dsless_asym by blast
    qed
    with True \<open>k \<noteq> d\<close> show ?thesis by (simp add: deletes_usage_def)
  next
    case False
    show ?thesis
    proof (cases "DataStreamCmp_less d k")
      case True
      then have "d \<noteq> k" by (rule dsless_neq)
      with False True Cons.IH [OF s] show ?thesis by (auto simp: deletes_usage_def)
    next
      case nl: False
      with False have "k = d" by (rule dsless_total)
      with False show ?thesis by (simp add: deletes_usage_def)
    qed
  qed
qed

lemma deletes_usage_set_erase:
  "deletes_usage (set_erase k ds) + (if k \<in> set ds then length k else 0) = deletes_usage ds"
  by (induction ds) (auto simp: deletes_usage_def)

subsection \<open>The counter follows the sizes\<close>

lemma counter_Write:
  assumes o: "containers_ordered t" and m: "memoryUsage t = usage_word t"
  shows "memoryUsage (Write ssz k V v t) = usage_word (Write ssz k V v t)"
proof -
  let ?h = "ValueHolderImpl V v (ssz V v)"
  from o have sw: "sorted_wrt DataStreamCmp_less (map fst (writes t))"
    by (simp add: containers_ordered_def)
  have w: "(of_nat (writes_usage (map_put k ?h (writes t))) :: size_t)
      + (case map_find k (writes t) of
           Some old \<Rightarrow> of_nat (length k) + holder_memoryUsage old | None \<Rightarrow> 0)
      = of_nat (writes_usage (writes t)) + (of_nat (length k) + ssz V v)"
    using arg_cong [OF writes_usage_map_put [OF sw, of k ?h], of "of_nat :: nat \<Rightarrow> size_t"]
    by (simp split: option.splits)
  have d: "(of_nat (deletes_usage (set_erase k (deletes t))) :: size_t)
      + (if k \<in> set (deletes t) then of_nat (length k) else 0)
      = of_nat (deletes_usage (deletes t))"
    using arg_cong [OF deletes_usage_set_erase [of k "deletes t"], of "of_nat :: nat \<Rightarrow> size_t"]
    by (simp split: if_splits)
  have "memoryUsage (Write ssz k V v t)
      = memoryUsage t - (if k \<in> set (deletes t) then of_nat (length k) else 0)
        - (case map_find k (writes t) of
             Some old \<Rightarrow> of_nat (length k) + holder_memoryUsage old | None \<Rightarrow> 0)
        + (of_nat (length k) + ssz V v)"
    by (simp add: Write_def Let_def set_count_def split: option.splits)
  also have "\<dots> = usage_word (Write ssz k V v t)"
    using w d by (simp add: usage_word_def m algebra_simps)
  finally show ?thesis .
qed

lemma counter_Erase:
  assumes o: "containers_ordered t" and m: "memoryUsage t = usage_word t"
  shows "memoryUsage (Erase k t) = usage_word (Erase k t)"
proof -
  from o have sd: "sorted_wrt DataStreamCmp_less (deletes t)"
    by (simp add: containers_ordered_def)
  have d: "(of_nat (deletes_usage (set_emplace k (deletes t))) :: size_t)
      = of_nat (deletes_usage (deletes t)) + (if k \<in> set (deletes t) then 0 else of_nat (length k))"
    by (simp add: deletes_usage_set_emplace [OF sd])
  show ?thesis
  proof (cases "map_find k (writes t)")
    case None
    then have "memoryUsage (Erase k t)
        = memoryUsage t + (if k \<in> set (deletes t) then 0 else of_nat (length k))"
      by (simp add: Erase_def Let_def set_count_def)
    with None d show ?thesis by (simp add: usage_word_def m)
  next
    case (Some old)
    have w: "(of_nat (writes_usage (writes t)) :: size_t)
        = of_nat (writes_usage (map_erase k (writes t)))
          + (of_nat (length k) + holder_memoryUsage old)"
      using arg_cong [OF writes_usage_map_erase [OF Some], of "of_nat :: nat \<Rightarrow> size_t"]
      by simp
    from Some have "memoryUsage (Erase k t)
        = memoryUsage t - (of_nat (length k) + holder_memoryUsage old)
          + (if k \<in> set (deletes t) then 0 else of_nat (length k))"
      by (simp add: Erase_def Let_def set_count_def)
    also have "\<dots> = of_nat (writes_usage (map_erase k (writes t)))
          + of_nat (deletes_usage (deletes t))
          + (if k \<in> set (deletes t) then 0 else of_nat (length k))"
      by (simp add: m usage_word_def w)
    also have "\<dots> = usage_word (Erase k t)"
      using Some by (simp add: usage_word_def d)
    finally show ?thesis .
  qed
qed

lemma counter_Clear: "memoryUsage (Clear t) = usage_word (Clear t)"
  by (simp add: Clear_def usage_word_def deletes_usage_def)

lemma list_all_map_put:
  "list_all P ws \<Longrightarrow> P (k, h) \<Longrightarrow> list_all P (map_put k h ws)"
  by (induction ws) auto

lemma list_all_map_erase: "list_all P ws \<Longrightarrow> list_all P (map_erase k ws)"
  by (induction ws) auto

lemma sized_Write: "holders_sized ssz t \<Longrightarrow> holders_sized ssz (Write ssz k V v t)"
  by (simp add: holders_sized_def list_all_map_put)

lemma sized_Erase: "holders_sized ssz t \<Longrightarrow> holders_sized ssz (Erase k t)"
  by (simp add: holders_sized_def list_all_map_erase)

lemma sized_Clear: "holders_sized ssz (Clear t)"
  by (simp add: holders_sized_def Clear_def)

lemma analytic_usage_sized:
  "holders_sized ssz t \<Longrightarrow>
   analytic_usage ssz t = writes_usage (writes t) + deletes_usage (deletes t)"
proof -
  have "list_all (\<lambda>(k, h). holder_memoryUsage h = ssz (holder_type h) (holder_value h)) ws \<Longrightarrow>
      (\<Sum>(k, h)\<leftarrow>ws. length k + unat (ssz (holder_type h) (holder_value h))) = writes_usage ws"
    for ws :: "('a, 'b) WritesMap"
    by (induction ws) auto
  then show "holders_sized ssz t \<Longrightarrow> ?thesis"
    by (simp add: holders_sized_def analytic_usage_def deletes_usage_def)
qed

lemma exec_accounted:
  "accounted ssz (fst s) \<Longrightarrow> accounted ssz (fst (exec ssz tE tW s call))"
  by (cases s; cases call)
    (simp_all add: accounted_def ordered_Write ordered_Erase ordered_Clear sized_Write
      sized_Erase sized_Clear counter_Write counter_Erase counter_Clear fst_Commit)

lemma foldl_exec_accounted:
  "accounted ssz (fst s) \<Longrightarrow> accounted ssz (fst (foldl (exec ssz tE tW) s calls))"
proof (induction calls arbitrary: s)
  case Nil
  then show ?case by simp
next
  case (Cons call calls)
  from Cons.prems have "accounted ssz (fst (exec ssz tE tW s call))"
    by (rule exec_accounted)
  then show ?case using Cons.IH by simp
qed

lemma run_accounted: "accounted ssz (fst (run ssz tE tW c calls))"
  unfolding run_def
  by (rule foldl_exec_accounted)
    (simp add: accounted_def containers_ordered_def holders_sized_def usage_word_def
      deletes_usage_def CDBTransaction_new_def)

lemma sint_of_nat_small:
  "n < 2 ^ 63 \<Longrightarrow> sint (of_nat n :: size_t) = int n"
proof -
  assume "n < 2 ^ 63"
  then have "int n < 2 ^ 63" by (simp add: of_nat_less_iff [of n "2 ^ 63", where ?'a = int, simplified])
  moreover have "- (2 ^ 63) \<le> int n" by simp
  ultimately have "signed_take_bit 63 (int n) = int n"
    by (simp add: signed_take_bit_int_eq_self)
  then show ?thesis
    by (simp add: signed_of_nat)
qed

text \<open>
  Claim C5. After any sequence of calls on a fresh overlay the counter \<^verbatim>\<open>memoryUsage\<close>
  is the analytic sum (key size plus serialized value size over the write-set, key size
  over the delete-set) in 64-bit arithmetic. While that sum is below \<open>2 ^ 63\<close>, as the
  sizes of objects held in memory are, the signed counter equals the sum and is not
  negative.
\<close>

theorem memoryUsage_is_analytic_sum:
  "memoryUsage (fst (run ssz tE tW c calls))
     = of_nat (analytic_usage ssz (fst (run ssz tE tW c calls)))
   \<and> (analytic_usage ssz (fst (run ssz tE tW c calls)) < 2 ^ 63 \<longrightarrow>
        sint (memoryUsage (fst (run ssz tE tW c calls)))
          = int (analytic_usage ssz (fst (run ssz tE tW c calls)))
        \<and> 0 \<le> sint (memoryUsage (fst (run ssz tE tW c calls))))"
proof -
  let ?t = "fst (run ssz tE tW c calls)"
  have a: "accounted ssz ?t" by (rule run_accounted)
  then have "analytic_usage ssz ?t = writes_usage (writes ?t) + deletes_usage (deletes ?t)"
    by (simp add: accounted_def analytic_usage_sized)
  with a have m: "memoryUsage ?t = of_nat (analytic_usage ssz ?t)"
    by (simp add: accounted_def usage_word_def)
  have "sint (memoryUsage ?t) = int (analytic_usage ssz ?t)"
    if "analytic_usage ssz ?t < 2 ^ 63"
    using that by (simp only: m sint_of_nat_small)
  with m show ?thesis by simp
qed

theorem memoryUsage_is_analytic_sum_witness:
  "analytic_usage (\<lambda>V v. of_nat v)
      (fst (run (\<lambda>V v. of_nat v) record_Erase record_Write []
              [CallWrite [1, 2] (0::nat) (7::nat), CallErase [3], CallWrite [1, 2] 0 4, CallErase [3]])) = 7
   \<and> sint (memoryUsage
        (fst (run (\<lambda>V v. of_nat v) record_Erase record_Write []
              [CallWrite [1, 2] (0::nat) (7::nat), CallErase [3], CallWrite [1, 2] 0 4, CallErase [3]]))) = 7"
proof -
  have e: "analytic_usage (\<lambda>V v. of_nat v)
      (fst (run (\<lambda>V v. of_nat v) record_Erase record_Write []
              [CallWrite [1, 2] (0::nat) (7::nat), CallErase [3], CallWrite [1, 2] 0 4, CallErase [3]])) = 7"
    by (simp add: run_def Write_def Erase_def Let_def set_count_def analytic_usage_def
        CDBTransaction_new_def)
  show ?thesis
    using memoryUsage_is_analytic_sum
      [of "\<lambda>V v. of_nat v" record_Erase record_Write "[]"
          "[CallWrite [1, 2] (0::nat) (7::nat), CallErase [3], CallWrite [1, 2] 0 4, CallErase [3]]"]
    by (simp add: e)
qed


text \<open>
  Claim C6, as amended. \<^verbatim>\<open>GetMemoryUsage\<close> always returns, and never a size derived
  from a negative counter. When the signed counter is negative it returns 0 and leaves
  \<^verbatim>\<open>didPrint\<close> set; it logs the diagnostic only when \<^verbatim>\<open>didPrint\<close> was not set before the
  call, and logs nothing when it was. Otherwise it returns the counter unchanged, logs
  nothing and leaves \<^verbatim>\<open>didPrint\<close> as it was. The returned size, read as unsigned, is the
  signed counter clamped at zero.
\<close>

theorem GetMemoryUsage_clamps:
  "(sint (memoryUsage t) < 0 \<longrightarrow>
      GetMemoryUsage t (didPrint, lg) =
        (0, True, if didPrint then lg else lg @ [NegativeMemoryUsage (sint (memoryUsage t))]))
   \<and> (\<not> sint (memoryUsage t) < 0 \<longrightarrow>
        GetMemoryUsage t (didPrint, lg) = (memoryUsage t, didPrint, lg))
   \<and> uint (fst (GetMemoryUsage t (didPrint, lg))) = max 0 (sint (memoryUsage t))"
proof -
  have "uint (memoryUsage t) = sint (memoryUsage t)" if "\<not> sint (memoryUsage t) < 0"
  proof -
    have "sint (memoryUsage t) < 2 ^ 64"
      using sint_lt [of "memoryUsage t"] by simp
    with that have "take_bit 64 (sint (memoryUsage t)) = sint (memoryUsage t)"
      by (simp add: take_bit_int_eq_self)
    then show ?thesis
      using uint_sint [of "memoryUsage t"] by simp
  qed
  then show ?thesis
    by (auto simp: GetMemoryUsage_def)
qed

theorem GetMemoryUsage_clamps_witness:
  "sint (memoryUsage (\<lparr>writes = [], deletes = [], memoryUsage = - 5\<rparr> :: (nat, nat) CDBTransaction)) < 0
   \<and> GetMemoryUsage (\<lparr>writes = [], deletes = [], memoryUsage = - 5\<rparr> :: (nat, nat) CDBTransaction) (False, [])
       = (0, True, [NegativeMemoryUsage (- 5)])
   \<and> GetMemoryUsage (\<lparr>writes = [], deletes = [], memoryUsage = - 5\<rparr> :: (nat, nat) CDBTransaction)
         (True, [NegativeMemoryUsage (- 5)])
       = (0, True, [NegativeMemoryUsage (- 5)])
   \<and> \<not> sint (memoryUsage (\<lparr>writes = [], deletes = [], memoryUsage = 12\<rparr> :: (nat, nat) CDBTransaction)) < 0
   \<and> GetMemoryUsage (\<lparr>writes = [], deletes = [], memoryUsage = 12\<rparr> :: (nat, nat) CDBTransaction) (False, [])
       = (12, False, [])"
  using GetMemoryUsage_clamps [of "\<lparr>writes = [], deletes = [], memoryUsage = - 5\<rparr> :: (nat, nat) CDBTransaction" False "[]"]
    GetMemoryUsage_clamps [of "\<lparr>writes = [], deletes = [], memoryUsage = - 5\<rparr> :: (nat, nat) CDBTransaction" True
       "[NegativeMemoryUsage (- 5)]"]
    GetMemoryUsage_clamps [of "\<lparr>writes = [], deletes = [], memoryUsage = 12\<rparr> :: (nat, nat) CDBTransaction" False "[]"]
  by simp

text \<open>
  Claim C6 as stated fails: with the counter at \<open>- 5\<close> and \<^verbatim>\<open>didPrint\<close> set by an earlier
  call, \<^verbatim>\<open>GetMemoryUsage\<close> returns 0 and the log is as it was; no diagnostic is emitted.
\<close>

theorem GetMemoryUsage_silent_counterexample:
  "sint (memoryUsage (\<lparr>writes = [], deletes = [], memoryUsage = - 5\<rparr> :: (nat, nat) CDBTransaction)) < 0
   \<and> GetMemoryUsage (\<lparr>writes = [], deletes = [], memoryUsage = - 5\<rparr> :: (nat, nat) CDBTransaction)
         (True, [])
       = (0, True, [])"
  by (simp add: GetMemoryUsage_def)

section \<open>The merge iterator\<close>

text \<open>
  Claim C10. On an invalid merge iterator (both legs at their end) every accessor is
  defined: \<^verbatim>\<open>Next()\<close> returns with the iterator unchanged, the typed \<^verbatim>\<open>GetKey\<close> and
  \<^verbatim>\<open>GetValue\<close> return false, the untyped \<^verbatim>\<open>GetKey\<close> returns an empty stream and
  \<^verbatim>\<open>GetKeySize\<close> returns 0; none of them faults.
\<close>

theorem merge_iterator_invalid_total:
  "\<not> Valid it \<Longrightarrow>
     Next t it = Inr it
     \<and> GetKey_typed Unserialize_key it = Inr None
     \<and> GetValue parent_Read t it V = Inr None
     \<and> GetKey it = Inr []
     \<and> GetKeySize parent_GetKeySize it = Inr 0"
  by (simp add: Valid_def Next_def GetKey_typed_def GetValue_def GetKey_def GetKeySize_def)

theorem merge_iterator_invalid_total_witness:
  "\<not> Valid (CDBTransactionIterator_new :: (nat, nat) CDBTransactionIterator)
   \<and> Next CDBTransaction_new (CDBTransactionIterator_new :: (nat, nat) CDBTransactionIterator)
       = Inr CDBTransactionIterator_new
   \<and> GetKey_typed (\<lambda>k. Some k) (CDBTransactionIterator_new :: (nat, nat) CDBTransactionIterator)
       = Inr None
   \<and> GetValue (\<lambda>k V. Inr (Some 1)) CDBTransaction_new
        (CDBTransactionIterator_new :: (nat, nat) CDBTransactionIterator) 0 = Inr None
   \<and> GetKey (CDBTransactionIterator_new :: (nat, nat) CDBTransactionIterator) = Inr []
   \<and> GetKeySize (\<lambda>p. Inl InvalidIterator)
        (CDBTransactionIterator_new :: (nat, nat) CDBTransactionIterator) = Inr 0"
  using merge_iterator_invalid_total
    [of "CDBTransactionIterator_new :: (nat, nat) CDBTransactionIterator" CDBTransaction_new
        "\<lambda>k. Some k" "\<lambda>k V. Inr (Some 1)" 0 "\<lambda>p. Inl InvalidIterator"]
  by (simp add: Valid_def CDBTransactionIterator_new_def)

lemma DecideCur_fields [simp]:
  "transactionIt (DecideCur it) = transactionIt it"
  "parentIt (DecideCur it) = parentIt it"
  "parentKey (DecideCur it) = parentKey it"
  by (simp_all add: DecideCur_def)

lemma DecideCur_idem: "DecideCur (DecideCur it) = DecideCur it"
  by (simp add: DecideCur_def)

lemma skip_loop_props:
  "SkipDeletedAndOverwritten_loop t p pk = (p', pk') \<Longrightarrow>
     {k \<in> set p'. \<not> shadowed t k} = {k \<in> set p. \<not> shadowed t k}
     \<and> (sorted_wrt DataStreamCmp_less p \<longrightarrow> sorted_wrt DataStreamCmp_less p')
     \<and> (p' \<noteq> [] \<longrightarrow> pk' = hd p' \<and> \<not> shadowed t pk')"
proof (induction p arbitrary: pk)
  case Nil
  then show ?case by simp
next
  case (Cons k ks)
  show ?case
  proof (cases "shadowed t k")
    case True
    with Cons.prems have "SkipDeletedAndOverwritten_loop t ks k = (p', pk')"
      by (auto simp: shadowed_def split: if_splits)
    from Cons.IH [OF this] True show ?thesis by auto
  next
    case False
    with Cons.prems have "p' = k # ks" "pk' = k"
      by (auto simp: shadowed_def)
    with False show ?thesis by simp
  qed
qed

lemma Skip_fields [simp]:
  "transactionIt (SkipDeletedAndOverwritten t it) = transactionIt it"
  "curIsParent (SkipDeletedAndOverwritten t it) = curIsParent it"
  by (simp_all add: SkipDeletedAndOverwritten_def split: prod.splits)

lemma Skip_props:
  "{k \<in> set (parentIt (SkipDeletedAndOverwritten t it)). \<not> shadowed t k}
      = {k \<in> set (parentIt it). \<not> shadowed t k}
   \<and> (sorted_wrt DataStreamCmp_less (parentIt it) \<longrightarrow>
        sorted_wrt DataStreamCmp_less (parentIt (SkipDeletedAndOverwritten t it)))
   \<and> (parentIt (SkipDeletedAndOverwritten t it) \<noteq> [] \<longrightarrow>
        parentKey (SkipDeletedAndOverwritten t it) = hd (parentIt (SkipDeletedAndOverwritten t it))
        \<and> \<not> shadowed t (parentKey (SkipDeletedAndOverwritten t it)))"
proof -
  obtain p' pk' where e: "SkipDeletedAndOverwritten_loop t (parentIt it) (parentKey it) = (p', pk')"
    by (cases "SkipDeletedAndOverwritten_loop t (parentIt it) (parentKey it)")
  from skip_loop_props [OF e] show ?thesis
    by (auto simp: SkipDeletedAndOverwritten_def e)
qed

lemma positioned_after_skip:
  assumes "sorted_wrt DataStreamCmp_less (map fst (transactionIt x))"
    and "fst ` set (transactionIt x) \<subseteq> fst ` set (writes t)"
    and "sorted_wrt DataStreamCmp_less (parentIt x)"
  shows "positioned t (DecideCur (SkipDeletedAndOverwritten t x))"
    and "remaining t (DecideCur (SkipDeletedAndOverwritten t x))
          = fst ` set (transactionIt x) \<union> {k \<in> set (parentIt x). \<not> shadowed t k}"
  using assms Skip_props [of t x]
  by (auto simp: positioned_def remaining_def DecideCur_idem)

lemma positioned_SeekToFirst:
  assumes "containers_ordered t" and "sorted_wrt DataStreamCmp_less parent_keys"
  shows "positioned t (SeekToFirst t parent_keys it)"
    and "remaining t (SeekToFirst t parent_keys it)
          = fst ` set (writes t) \<union> {k \<in> set parent_keys. \<not> shadowed t k}"
  using assms
    positioned_after_skip [of "it\<lparr>transactionIt := writes t, parentIt := parent_keys\<rparr>" t]
  by (simp_all add: SeekToFirst_def containers_ordered_def)

lemma sorted_dsless_hd:
  "sorted_wrt DataStreamCmp_less (k # ks) \<Longrightarrow> x \<in> set ks \<Longrightarrow> DataStreamCmp_less k x"
  by simp

lemma Next_parent_leg:
  assumes p: "positioned t it" and c: "curIsParent it" and v: "Valid it"
  shows "\<exists>k it'. GetKey it = Inr k \<and> Next t it = Inr it' \<and> positioned t it'
           \<and> remaining t it = insert k (remaining t it')
           \<and> (\<forall>x\<in>remaining t it'. DataStreamCmp_less k x)"
proof -
  from p have d: "DecideCur it = it" by (simp add: positioned_def)
  have pne: "parentIt it \<noteq> []"
  proof
    assume e: "parentIt it = []"
    with v have "transactionIt it \<noteq> []" by (simp add: Valid_def)
    with e have "\<not> curIsParent (DecideCur it)" by (simp add: DecideCur_def)
    with d c show False by simp
  qed
  then obtain pk rest where pr: "parentIt it = pk # rest" by (cases "parentIt it") auto
  from p pr have pk: "parentKey it = pk" and ns: "\<not> shadowed t pk"
    and sp: "sorted_wrt DataStreamCmp_less (pk # rest)"
    and st: "sorted_wrt DataStreamCmp_less (map fst (transactionIt it))"
    and sub: "fst ` set (transactionIt it) \<subseteq> fst ` set (writes t)"
    by (auto simp: positioned_def)
  let ?x = "it\<lparr>parentIt := rest\<rparr>"
  let ?it' = "DecideCur (SkipDeletedAndOverwritten t ?x)"
  have g: "GetKey it = Inr pk"
    using c pr pk by (simp add: GetKey_def Valid_def)
  have n: "Next t it = Inr ?it'"
    using c pr by (simp add: Next_def)
  from sp have sr: "sorted_wrt DataStreamCmp_less rest" by simp
  have pos: "positioned t ?it'"
    using positioned_after_skip(1) [of ?x t] st sub sr by simp
  have rem': "remaining t ?it' = fst ` set (transactionIt it) \<union> {k \<in> set rest. \<not> shadowed t k}"
    using positioned_after_skip(2) [of ?x t] st sub sr by simp
  have "remaining t it = fst ` set (transactionIt it) \<union> {k \<in> set (pk # rest). \<not> shadowed t k}"
    by (simp add: remaining_def pr)
  with ns have rem: "remaining t it = insert pk (remaining t ?it')"
    unfolding rem' by auto
  have low: "DataStreamCmp_less pk x" if x: "x \<in> remaining t ?it'" for x
  proof -
    from x rem' consider "x \<in> fst ` set (transactionIt it)" | "x \<in> set rest" by auto
    then show ?thesis
    proof cases
      case 1
      then obtain tk th trest where tr: "transactionIt it = (tk, th) # trest"
        by (cases "transactionIt it") auto
      from tr sub have "tk \<in> fst ` set (writes t)" by auto
      then have "shadowed t tk"
        by (simp add: shadowed_def map_count_def map_find_None_iff)
      with ns have neq: "tk \<noteq> pk" by auto
      have "\<not> DataStreamCmp_less tk pk"
      proof
        assume "DataStreamCmp_less tk pk"
        with tr pr pk have "\<not> curIsParent (DecideCur it)" by (simp add: DecideCur_def)
        with d c show False by simp
      qed
      with neq have l: "DataStreamCmp_less pk tk"
        using dsless_total [of tk pk] by auto
      from 1 tr have "x = tk \<or> x \<in> fst ` set trest" by auto
      then show ?thesis
      proof
        assume "x = tk"
        with l show ?thesis by simp
      next
        assume "x \<in> fst ` set trest"
        with st tr have "DataStreamCmp_less tk x" by auto
        with l show ?thesis by (rule dsless_trans)
      qed
    next
      case 2
      with sp show ?thesis by simp
    qed
  qed
  from g n pos rem low show ?thesis by blast
qed

lemma Next_transaction_leg:
  assumes p: "positioned t it" and c: "\<not> curIsParent it" and v: "Valid it"
  shows "\<exists>k it'. GetKey it = Inr k \<and> Next t it = Inr it' \<and> positioned t it'
           \<and> remaining t it = insert k (remaining t it')
           \<and> (\<forall>x\<in>remaining t it'. DataStreamCmp_less k x)"
proof -
  from p have d: "DecideCur it = it" by (simp add: positioned_def)
  have tne: "transactionIt it \<noteq> []"
  proof
    assume e: "transactionIt it = []"
    with v have "parentIt it \<noteq> []" by (simp add: Valid_def)
    with e have "curIsParent (DecideCur it)" by (simp add: DecideCur_def)
    with d c show False by simp
  qed
  then obtain tk th trest where tr: "transactionIt it = (tk, th) # trest"
    by (cases "transactionIt it") auto
  from p tr have st: "sorted_wrt DataStreamCmp_less (tk # map fst trest)"
    and sub: "fst ` set trest \<subseteq> fst ` set (writes t)"
    and sp: "sorted_wrt DataStreamCmp_less (parentIt it)"
    and hp: "parentIt it \<noteq> [] \<longrightarrow> parentKey it = hd (parentIt it) \<and> \<not> shadowed t (parentKey it)"
    by (auto simp: positioned_def)
  let ?it' = "DecideCur (it\<lparr>transactionIt := trest\<rparr>)"
  have g: "GetKey it = Inr tk"
    using c tr by (simp add: GetKey_def Valid_def)
  have n: "Next t it = Inr ?it'"
    using c tr by (simp add: Next_def)
  have pos: "positioned t ?it'"
    using st sub sp hp by (auto simp: positioned_def DecideCur_idem)
  have rem: "remaining t it = insert tk (remaining t ?it')"
    by (auto simp: remaining_def tr)
  have low: "DataStreamCmp_less tk x" if x: "x \<in> remaining t ?it'" for x
  proof -
    from x consider "x \<in> fst ` set trest" | "x \<in> set (parentIt it)"
      by (auto simp: remaining_def)
    then show ?thesis
    proof cases
      case 1
      with st show ?thesis by auto
    next
      case 2
      then obtain pk rest where pr: "parentIt it = pk # rest" by (cases "parentIt it") auto
      with hp have pk: "parentKey it = pk" by simp
      have l: "DataStreamCmp_less tk pk"
      proof (rule ccontr)
        assume "\<not> DataStreamCmp_less tk pk"
        with tr pr pk have "curIsParent (DecideCur it)" by (simp add: DecideCur_def)
        with d c show False by simp
      qed
      from 2 pr have "x = pk \<or> x \<in> set rest" by auto
      then show ?thesis
      proof
        assume "x = pk"
        with l show ?thesis by simp
      next
        assume "x \<in> set rest"
        with sp pr have "DataStreamCmp_less pk x" by simp
        with l show ?thesis by (rule dsless_trans)
      qed
    qed
  qed
  from g n pos rem low show ?thesis by blast
qed

lemma traverse_positioned:
  "positioned t it \<Longrightarrow>
   \<exists>ks. traverse t it = Inr ks \<and> sorted_wrt DataStreamCmp_less ks \<and> set ks = remaining t it"
proof (induction t it rule: traverse.induct)
  case (1 t it)
  show ?case
  proof (cases "Valid it")
    case False
    then show ?thesis
      by (simp add: remaining_def Valid_def)
  next
    case True
    have "\<exists>k it'. GetKey it = Inr k \<and> Next t it = Inr it' \<and> positioned t it'
           \<and> remaining t it = insert k (remaining t it')
           \<and> (\<forall>x\<in>remaining t it'. DataStreamCmp_less k x)"
      using Next_parent_leg [OF "1.prems" _ True] Next_transaction_leg [OF "1.prems" _ True]
      by (cases "curIsParent it") blast+
    then obtain k it' where g: "GetKey it = Inr k" and n: "Next t it = Inr it'"
      and pos: "positioned t it'" and rem: "remaining t it = insert k (remaining t it')"
      and low: "\<forall>x\<in>remaining t it'. DataStreamCmp_less k x"
      by blast
    from "1.IH" [OF _ g n pos] True obtain ks where
      ks: "traverse t it' = Inr ks" "sorted_wrt DataStreamCmp_less ks" "set ks = remaining t it'"
      by auto
    have "traverse t it = Inr (k # ks)"
      using True g n ks(1) by (subst traverse.simps) simp
    moreover have "sorted_wrt DataStreamCmp_less (k # ks)"
      using ks low by simp
    moreover have "set (k # ks) = remaining t it"
      using ks rem by simp
    ultimately show ?thesis by blast
  qed
qed

text \<open>
  Claim C2. With the containers ordered and a parent that delivers its keys in strictly
  ascending order, the traversal from \<^verbatim>\<open>SeekToFirst\<close> returns (no fault, and it ends) a
  strictly ascending list of keys without duplicates, whose set is the keys of the
  write-set together with the parent keys that are in neither the write-set nor the
  delete-set.
\<close>

theorem traversal_sorted_union:
  assumes "containers_ordered t" and "sorted_wrt DataStreamCmp_less parent_keys"
  shows "\<exists>ks. traverse t (SeekToFirst t parent_keys it) = Inr ks
           \<and> sorted_wrt DataStreamCmp_less ks \<and> distinct ks
           \<and> set ks = fst ` set (writes t)
                \<union> {k \<in> set parent_keys. k \<notin> fst ` set (writes t) \<and> k \<notin> set (deletes t)}"
proof -
  from assms have "positioned t (SeekToFirst t parent_keys it)"
    by (rule positioned_SeekToFirst(1))
  then obtain ks where ks: "traverse t (SeekToFirst t parent_keys it) = Inr ks"
    "sorted_wrt DataStreamCmp_less ks" "set ks = remaining t (SeekToFirst t parent_keys it)"
    using traverse_positioned by blast
  from ks(2) have "distinct ks" by (rule sorted_dsless_distinct)
  moreover have "set ks = fst ` set (writes t)
        \<union> {k \<in> set parent_keys. k \<notin> fst ` set (writes t) \<and> k \<notin> set (deletes t)}"
    using ks(3) positioned_SeekToFirst(2) [OF assms]
    by (auto simp: shadowed_def set_count_def map_count_def map_find_None_iff)
  ultimately show ?thesis using ks by blast
qed

theorem traversal_sorted_union_witness:
  "containers_ordered (\<lparr>writes = [([1], ValueHolderImpl 0 7 1), ([3], ValueHolderImpl 0 8 1)],
                        deletes = [[2]], memoryUsage = 5\<rparr> :: (nat, nat) CDBTransaction)
   \<and> sorted_wrt DataStreamCmp_less [[0], [1], [2], [2, 0], [4]]
   \<and> traverse (\<lparr>writes = [([1], ValueHolderImpl 0 7 1), ([3], ValueHolderImpl 0 8 1)],
                 deletes = [[2]], memoryUsage = 5\<rparr> :: (nat, nat) CDBTransaction)
        (SeekToFirst (\<lparr>writes = [([1], ValueHolderImpl 0 7 1), ([3], ValueHolderImpl 0 8 1)],
                       deletes = [[2]], memoryUsage = 5\<rparr> :: (nat, nat) CDBTransaction)
           [[0], [1], [2], [2, 0], [4]] CDBTransactionIterator_new)
       = Inr [[0], [1], [2, 0], [3], [4]]
   \<and> sorted_wrt DataStreamCmp_less [[0], [1], [2, 0], [3], [4]]
   \<and> distinct [[0], [1], [2, 0], [3], [4 :: 8 word]]"
proof -
  let ?t = "\<lparr>writes = [([1], ValueHolderImpl 0 7 1), ([3], ValueHolderImpl 0 8 1)],
                 deletes = [[2]], memoryUsage = 5\<rparr> :: (nat, nat) CDBTransaction"
  have o: "containers_ordered ?t"
    by (simp add: containers_ordered_def)
  have s: "sorted_wrt DataStreamCmp_less [[0], [1], [2], [2, 0], [4]]"
    by simp
  have e: "traverse ?t (SeekToFirst ?t [[0], [1], [2], [2, 0], [4]] CDBTransactionIterator_new)
      = Inr [[0], [1], [2, 0], [3], [4]]"
    by (simp add: SeekToFirst_def SkipDeletedAndOverwritten_def DecideCur_def
        Valid_def GetKey_def Next_def set_count_def map_count_def CDBTransactionIterator_new_def)
  from traversal_sorted_union [OF o s, of CDBTransactionIterator_new] obtain ks where
    k: "traverse ?t (SeekToFirst ?t [[0], [1], [2], [2, 0], [4]] CDBTransactionIterator_new) = Inr ks"
      "sorted_wrt DataStreamCmp_less ks" "distinct ks"
    by blast
  from k(1) have "ks = [[0], [1], [2, 0], [3], [4]]"
    unfolding e by simp
  with k(2,3) have "sorted_wrt DataStreamCmp_less [[0], [1], [2, 0], [3], [4]]
      \<and> distinct [[0], [1], [2, 0], [3], [4 :: 8 word]]"
    by blast
  with o s e show ?thesis by blast
qed

text \<open>
  Claim C1, as amended. With both legs valid, \<^verbatim>\<open>DecideCur\<close> makes the transaction leg
  current exactly when its key is strictly less than \<^verbatim>\<open>parentKey\<close>. At equal keys the
  parent leg is current: \<^verbatim>\<open>GetKey\<close> returns \<^verbatim>\<open>parentKey\<close> (the same bytes as the key of
  the write-set entry), and \<^verbatim>\<open>GetValue\<close> still returns the value held in the write-set,
  because it reads through the overlay's \<^verbatim>\<open>Read\<close>.
\<close>

theorem DecideCur_tie_parent_leg:
  "transactionIt it \<noteq> [] \<and> parentIt it \<noteq> [] \<longrightarrow>
     curIsParent (DecideCur it)
       = (\<not> DataStreamCmp_less (fst (hd (transactionIt it))) (parentKey it))
     \<and> (fst (hd (transactionIt it)) = parentKey it \<longrightarrow>
          curIsParent (DecideCur it)
          \<and> GetKey (DecideCur it) = Inr (parentKey it)
          \<and> (\<not> set_count (parentKey it) (deletes t)
               \<and> map_find (parentKey it) (writes t) = Some h \<longrightarrow>
             GetValue parent_Read t (DecideCur it) (holder_type h) = Inr (Some (holder_value h))))"
  by (auto simp: DecideCur_def GetKey_def GetValue_def Valid_def Read_def dsless_irrefl)

theorem DecideCur_tie_parent_leg_witness:
  "curIsParent (DecideCur (\<lparr>transactionIt = [([1], ValueHolderImpl 0 7 1)], parentIt = [[1]],
                  parentKey = [1], curIsParent = False\<rparr> :: (nat, nat) CDBTransactionIterator))
   \<and> GetKey (DecideCur (\<lparr>transactionIt = [([1], ValueHolderImpl 0 7 1)], parentIt = [[1]],
                  parentKey = [1], curIsParent = False\<rparr> :: (nat, nat) CDBTransactionIterator))
       = Inr [1]
   \<and> GetValue (\<lambda>k V. Inr (Some 3))
        (\<lparr>writes = [([1], ValueHolderImpl 0 7 1)], deletes = [], memoryUsage = 2\<rparr>
           :: (nat, nat) CDBTransaction)
        (DecideCur (\<lparr>transactionIt = [([1], ValueHolderImpl 0 7 1)], parentIt = [[1]],
                  parentKey = [1], curIsParent = False\<rparr> :: (nat, nat) CDBTransactionIterator)) 0
       = Inr (Some 7)"
  using DecideCur_tie_parent_leg
    [of "\<lparr>transactionIt = [([1], ValueHolderImpl 0 7 1)], parentIt = [[1]],
           parentKey = [1], curIsParent = False\<rparr> :: (nat, nat) CDBTransactionIterator"
        "\<lparr>writes = [([1], ValueHolderImpl 0 7 1)], deletes = [], memoryUsage = 2\<rparr>
           :: (nat, nat) CDBTransaction" "ValueHolderImpl 0 7 1" "\<lambda>k V. Inr (Some 3)"]
  by (simp add: set_count_def)

text \<open>
  Claim C1 as stated fails: with both legs valid at the key \<open>[1]\<close>, \<^verbatim>\<open>DecideCur\<close> sets
  \<^verbatim>\<open>curIsParent\<close>, so the parent leg is the current one.
\<close>

theorem DecideCur_tie_counterexample:
  "transactionIt (\<lparr>transactionIt = [([1], ValueHolderImpl 0 7 1)], parentIt = [[1]],
                    parentKey = [1], curIsParent = False\<rparr> :: (nat, nat) CDBTransactionIterator) \<noteq> []
   \<and> parentIt (\<lparr>transactionIt = [([1], ValueHolderImpl 0 7 1)], parentIt = [[1]],
                  parentKey = [1], curIsParent = False\<rparr> :: (nat, nat) CDBTransactionIterator) \<noteq> []
   \<and> fst (hd (transactionIt (\<lparr>transactionIt = [([1], ValueHolderImpl 0 7 1)], parentIt = [[1]],
                  parentKey = [1], curIsParent = False\<rparr> :: (nat, nat) CDBTransactionIterator)))
       = hd (parentIt (\<lparr>transactionIt = [([1], ValueHolderImpl 0 7 1)], parentIt = [[1]],
                  parentKey = [1], curIsParent = False\<rparr> :: (nat, nat) CDBTransactionIterator))
   \<and> curIsParent (DecideCur (\<lparr>transactionIt = [([1], ValueHolderImpl 0 7 1)], parentIt = [[1]],
                  parentKey = [1], curIsParent = False\<rparr> :: (nat, nat) CDBTransactionIterator))"
  by (simp add: DecideCur_def)

end
